theory Spec2Isabelle
  imports Complex_Main "HOL-Library.Word"
begin

unbundle bit_operations_syntax

section \<open>Memory model\<close>

text \<open>
  The unit \<^verbatim>\<open>dotprod_crcf.avx512f.c\<close> works on C memory: coefficient and sample
  arrays are reached through pointers, objects are allocated with \<^verbatim>\<open>malloc\<close> and
  \<^verbatim>\<open>_mm_malloc\<close>, and every result is written through an output pointer. The model
  keeps that shape. A heap is a list of blocks indexed by block number; a pointer is
  \<open>NULL\<close> or a block number with an element offset. A \<^verbatim>\<open>float\<close> is a real number
  (exact arithmetic, but for the single-precision form of the scalar reference kernel,
  which rounds), an \<^verbatim>\<open>unsigned int\<close> is a 32-bit word, and a
  \<^verbatim>\<open>liquid_float_complex\<close> array is the array of its interleaved real and imaginary
  parts, which is how the kernels themselves read it after the cast to \<^verbatim>\<open>float *\<close>.
  The 64-byte alignment of \<^verbatim>\<open>_mm_malloc\<close> and of \<^verbatim>\<open>_mm512_load_ps\<close> is not part
  of the model.
\<close>

type_synonym u32 = "32 word"

datatype ptr = NULL | Ptr nat nat

text \<open>
  A block is an array of floats or one \<^verbatim>\<open>struct dotprod_crcf_s\<close> with its fields
  \<^verbatim>\<open>n\<close> and \<^verbatim>\<open>h\<close>.
\<close>

datatype block = Floats "real list" | Struct u32 ptr

record heap =
  cells :: "block option list"
  avail :: nat

text \<open>
  The status codes of \<^verbatim>\<open>liquid.h\<close> that this unit uses. An access through a null
  pointer or outside an allocated block has no defined behaviour in C; the model stops
  there with \<open>NullDereference\<close> or \<open>InvalidAccess\<close>.
\<close>

datatype liquid_error_code = LIQUID_OK | LIQUID_EICONFIG

datatype error = Failure liquid_error_code | NullDereference | InvalidAccess

definition seq :: "error + 'a \<Rightarrow> ('a \<Rightarrow> error + 'b) \<Rightarrow> error + 'b" where
  "seq m f = (case m of Inl e \<Rightarrow> Inl e | Inr v \<Rightarrow> f v)"

definition block_at :: "heap \<Rightarrow> nat \<Rightarrow> block option" where
  "block_at s a = (if a < length (cells s) then cells s ! a else None)"

text \<open>\<^verbatim>\<open>p[i]\<close> for a \<^verbatim>\<open>float *\<close> p.\<close>

definition load :: "heap \<Rightarrow> ptr \<Rightarrow> nat \<Rightarrow> error + real" where
  "load s p i =
     (case p of
        NULL \<Rightarrow> Inl NullDereference
      | Ptr a off \<Rightarrow>
          (case block_at s a of
             Some (Floats xs) \<Rightarrow>
               if off + i < length xs then Inr (xs ! (off + i)) else Inl InvalidAccess
           | _ \<Rightarrow> Inl InvalidAccess))"

text \<open>\<^verbatim>\<open>p[i] = v\<close> for a \<^verbatim>\<open>float *\<close> p.\<close>

definition store :: "heap \<Rightarrow> ptr \<Rightarrow> nat \<Rightarrow> real \<Rightarrow> error + heap" where
  "store s p i v =
     (case p of
        NULL \<Rightarrow> Inl NullDereference
      | Ptr a off \<Rightarrow>
          (case block_at s a of
             Some (Floats xs) \<Rightarrow>
               if off + i < length xs
               then Inr (s\<lparr>cells := (cells s)[a := Some (Floats (xs[off + i := v]))]\<rparr>)
               else Inl InvalidAccess
           | _ \<Rightarrow> Inl InvalidAccess))"

text \<open>\<^verbatim>\<open>p[i]\<close> and \<^verbatim>\<open>*p = v\<close> for a \<^verbatim>\<open>liquid_float_complex *\<close> p.\<close>

definition load_complex :: "heap \<Rightarrow> ptr \<Rightarrow> nat \<Rightarrow> error + complex" where
  "load_complex s p i =
     seq (load s p (2 * i)) (\<lambda>re. seq (load s p (2 * i + 1)) (\<lambda>im. Inr (Complex re im)))"

definition store_complex :: "heap \<Rightarrow> ptr \<Rightarrow> complex \<Rightarrow> error + heap" where
  "store_complex s p v = seq (store s p 0 (Re v)) (\<lambda>s'. store s' p 1 (Im v))"

text \<open>
  What a caller sees of memory: the \<open>m\<close> floats at a pointer, and the \<open>m\<close> complex
  samples at a pointer. An array of no elements is readable at any pointer.
\<close>

definition floats_at :: "heap \<Rightarrow> ptr \<Rightarrow> nat \<Rightarrow> real list option" where
  "floats_at s p m =
     (if m = 0 then Some []
      else case p of
        NULL \<Rightarrow> None
      | Ptr a off \<Rightarrow>
          (case block_at s a of
             Some (Floats xs) \<Rightarrow>
               if off + m \<le> length xs then Some (take m (drop off xs)) else None
           | _ \<Rightarrow> None))"

definition interleaved :: "real list \<Rightarrow> complex list" where
  "interleaved fs = map (\<lambda>i. Complex (fs ! (2 * i)) (fs ! (2 * i + 1))) [0..<length fs div 2]"

definition complexes_at :: "heap \<Rightarrow> ptr \<Rightarrow> nat \<Rightarrow> complex list option" where
  "complexes_at s p m = map_option interleaved (floats_at s p (2 * m))"

section \<open>Loops\<close>

text \<open>
  Every loop of the unit is a \<^verbatim>\<open>for (...; i < bound; i += step)\<close> over an
  \<^verbatim>\<open>unsigned int\<close> counter. The counter is a 32-bit word, so \<open>i + step\<close> wraps, and
  a loop whose counter steps over its bound never ends: the result \<open>None\<close>. The body
  works on the local variables \<open>acc\<close> and may stop the program with an error. The loop
  returns the final counter with the locals.
\<close>

partial_function (option) for_loop ::
  "u32 \<Rightarrow> u32 \<Rightarrow> (u32 \<Rightarrow> 'a \<Rightarrow> error + 'a) \<Rightarrow> u32 \<Rightarrow> 'a \<Rightarrow> (error + u32 \<times> 'a) option"
where
  "for_loop bound step body i acc =
     (if i < bound
      then (case body i acc of
              Inl e \<Rightarrow> Some (Inl e)
            | Inr acc' \<Rightarrow> for_loop bound step body (i + step) acc')
      else Some (Inr (i, acc)))"

declare for_loop.simps [code]

text \<open>What follows a loop: nothing if it does not end or has stopped with an error.\<close>

definition after :: "(error + 'a) option \<Rightarrow> ('a \<Rightarrow> (error + 'b) option) \<Rightarrow> (error + 'b) option" where
  "after m f = (case m of None \<Rightarrow> None | Some (Inl e) \<Rightarrow> Some (Inl e) | Some (Inr v) \<Rightarrow> f v)"

section \<open>Scalar kernels\<close>

text \<open>
  \<^verbatim>\<open>dotprod_crcf_run\<close>, in the branch compiled without \<^verbatim>\<open>_MSC_VER\<close>: the step
  \<^verbatim>\<open>r += _h[i] * _x[i]\<close> is \<open>mac\<close>. Every other function of the unit is written
  with the C99 complex operators of that branch alone (\<^verbatim>\<open>r += ...\<close> in
  \<^verbatim>\<open>dotprod_crcf_run4\<close>, \<^verbatim>\<open>w[0] + _Complex_I*w[1]\<close> in the kernels). The branch
  under \<^verbatim>\<open>_MSC_VER\<close>, which assigns \<^verbatim>\<open>r = _FCmulcr(_x[i], _h[i])\<close> where the
  other accumulates, is not modelled. The arithmetic here is exact, for what is said of
  the mathematical result; the same kernel with the rounding of the type
  \<^verbatim>\<open>float\<close> follows the unrolled one.
\<close>

definition mac :: "heap \<Rightarrow> ptr \<Rightarrow> ptr \<Rightarrow> u32 \<Rightarrow> complex \<Rightarrow> error + complex" where
  "mac s h x i r =
     seq (load s h (unat i)) (\<lambda>hi.
     seq (load_complex s x (unat i)) (\<lambda>xi.
     Inr (r + complex_of_real hi * xi)))"

definition dotprod_crcf_run ::
  "heap \<Rightarrow> ptr \<Rightarrow> ptr \<Rightarrow> u32 \<Rightarrow> ptr \<Rightarrow> (error + heap \<times> liquid_error_code) option" where
  "dotprod_crcf_run s h x n y =
     after (for_loop n 1 (\<lambda>i r. mac s h x i r) 0 0)
       (\<lambda>(i, r). Some (seq (store_complex s y r) (\<lambda>s'. Inr (s', LIQUID_OK))))"

text \<open>\<^verbatim>\<open>dotprod_crcf_run4\<close>: groups of four, then the remaining terms one at a time.\<close>

definition dotprod_crcf_run4 ::
  "heap \<Rightarrow> ptr \<Rightarrow> ptr \<Rightarrow> u32 \<Rightarrow> ptr \<Rightarrow> (error + heap \<times> liquid_error_code) option" where
  "dotprod_crcf_run4 s h x n y =
     (let t = push_bit 2 (drop_bit 2 n) in
      after (for_loop t 4
               (\<lambda>i r. seq (mac s h x i r) (\<lambda>r.
                       seq (mac s h x (i + 1) r) (\<lambda>r.
                       seq (mac s h x (i + 2) r) (\<lambda>r.
                       mac s h x (i + 3) r))))
               0 0)
        (\<lambda>(i, r).
      after (for_loop n 1 (\<lambda>i r. mac s h x i r) i r)
        (\<lambda>(i, r). Some (seq (store_complex s y r) (\<lambda>s'. Inr (s', LIQUID_OK))))))"

section \<open>Single precision\<close>

text \<open>
  The type \<^verbatim>\<open>float\<close> is IEEE 754 binary32. Its finite values are the numbers
  \<open>m * u\<close> with \<open>\<bar>m\<bar> < 2^24\<close> and \<open>u\<close> a power of two from \<open>2^-149\<close> to \<open>2^104\<close>.
  Around a number \<open>v\<close> they are spaced by \<open>binary32_ulp v\<close>, the least such \<open>u\<close> with
  \<open>\<bar>v\<bar> < 2^24 * u\<close>, found by doubling from \<open>2^-149\<close>; the least spacing is that of
  the subnormal numbers, and the 254 doublings end at \<open>2^105\<close>, the spacing of numbers
  that are out of range. An operation on floats gives the exact result rounded to the
  nearest value, and of two values equally near the one with \<open>m\<close> even: the default
  rounding mode. A result of magnitude \<open>2^128\<close> or more is an infinity in C; the model,
  whose memory holds real numbers, has none and keeps the rounded number, so that it
  is a model of the runs in which every result stays below \<open>2^128\<close>. The sign of a
  zero is not modelled.
\<close>

primrec ulp_from :: "nat \<Rightarrow> real \<Rightarrow> real \<Rightarrow> real" where
  "ulp_from 0 u v = u"
| "ulp_from (Suc k) u v = (if v < 2 ^ 24 * u then u else ulp_from k (2 * u) v)"

definition binary32_ulp :: "real \<Rightarrow> real" where
  "binary32_ulp v = ulp_from 254 (1 / 2 ^ 149) \<bar>v\<bar>"

definition round_to_even :: "real \<Rightarrow> int" where
  "round_to_even v =
     (let f = \<lfloor>v\<rfloor>; d = v - of_int f in
      if d < 1 / 2 then f else if 1 / 2 < d then f + 1 else if even f then f else f + 1)"

definition binary32_round :: "real \<Rightarrow> real" where
  "binary32_round v = of_int (round_to_even (v / binary32_ulp v)) * binary32_ulp v"

text \<open>
  The operators \<^verbatim>\<open>*\<close> and \<^verbatim>\<open>+\<close> on two floats, each evaluated in the type
  \<^verbatim>\<open>float\<close> and rounded on its own, with no wider intermediate value and no
  fused multiply-add; the product of a \<^verbatim>\<open>float\<close> and a
  \<^verbatim>\<open>float complex\<close>, which multiplies the real and the imaginary part; and the
  sum of two \<^verbatim>\<open>float complex\<close>, which adds part by part.
\<close>

definition float_mul :: "real \<Rightarrow> real \<Rightarrow> real" where
  "float_mul a b = binary32_round (a * b)"

definition float_add :: "real \<Rightarrow> real \<Rightarrow> real" where
  "float_add a b = binary32_round (a + b)"

definition float_complex_scale :: "real \<Rightarrow> complex \<Rightarrow> complex" where
  "float_complex_scale a z = Complex (float_mul a (Re z)) (float_mul a (Im z))"

definition float_complex_add :: "complex \<Rightarrow> complex \<Rightarrow> complex" where
  "float_complex_add w z = Complex (float_add (Re w) (Re z)) (float_add (Im w) (Im z))"



section \<open>Allocation and the object record\<close>

text \<open>
  \<^verbatim>\<open>malloc\<close> and \<^verbatim>\<open>_mm_malloc\<close> hand out a new block, numbered after every block
  there is, or \<open>NULL\<close> when the request exceeds the memory that is left (\<open>avail\<close>, in
  bytes). The contents of a new block are indeterminate in C; the model fills it with
  zeros, and the unit writes every cell of a block before it reads it. A request of
  no bytes gives a block of no elements.
\<close>

definition sizeof_float :: nat where
  "sizeof_float = 4"

definition sizeof_dotprod_crcf_s :: nat where
  "sizeof_dotprod_crcf_s = 16"

definition malloc :: "heap \<Rightarrow> nat \<Rightarrow> block \<Rightarrow> heap \<times> ptr" where
  "malloc s bytes init =
     (if bytes \<le> avail s
      then (s\<lparr>cells := cells s @ [Some init], avail := avail s - bytes\<rparr>, Ptr (length (cells s)) 0)
      else (s, NULL))"

definition malloc_struct :: "heap \<Rightarrow> heap \<times> ptr" where
  "malloc_struct s = malloc s sizeof_dotprod_crcf_s (Struct 0 NULL)"

definition mm_malloc_floats :: "heap \<Rightarrow> nat \<Rightarrow> heap \<times> ptr" where
  "mm_malloc_floats s m = malloc s (m * sizeof_float) (Floats (replicate m 0))"

definition sizeof_block :: "block \<Rightarrow> nat" where
  "sizeof_block b = (case b of Floats xs \<Rightarrow> length xs * sizeof_float | Struct n h \<Rightarrow> sizeof_dotprod_crcf_s)"

text \<open>\<^verbatim>\<open>free\<close> and \<^verbatim>\<open>_mm_free\<close>: nothing for \<open>NULL\<close>, undefined for anything but a live block.\<close>

definition free :: "heap \<Rightarrow> ptr \<Rightarrow> error + heap" where
  "free s p =
     (case p of
        NULL \<Rightarrow> Inr s
      | Ptr a off \<Rightarrow>
          (case block_at s a of
             Some b \<Rightarrow>
               if off = 0
               then Inr (s\<lparr>cells := (cells s)[a := None], avail := avail s + sizeof_block b\<rparr>)
               else Inl InvalidAccess
           | None \<Rightarrow> Inl InvalidAccess))"

text \<open>The fields \<^verbatim>\<open>q->n\<close> and \<^verbatim>\<open>q->h\<close>, read and written.\<close>

definition load_struct :: "heap \<Rightarrow> ptr \<Rightarrow> error + u32 \<times> ptr" where
  "load_struct s q =
     (case q of
        NULL \<Rightarrow> Inl NullDereference
      | Ptr a off \<Rightarrow>
          (case block_at s a of
             Some (Struct n h) \<Rightarrow> if off = 0 then Inr (n, h) else Inl InvalidAccess
           | _ \<Rightarrow> Inl InvalidAccess))"

definition get_n :: "heap \<Rightarrow> ptr \<Rightarrow> error + u32" where
  "get_n s q = seq (load_struct s q) (\<lambda>(n, h). Inr n)"

definition get_h :: "heap \<Rightarrow> ptr \<Rightarrow> error + ptr" where
  "get_h s q = seq (load_struct s q) (\<lambda>(n, h). Inr h)"

definition store_struct :: "heap \<Rightarrow> ptr \<Rightarrow> u32 \<times> ptr \<Rightarrow> error + heap" where
  "store_struct s q v =
     (case q of
        NULL \<Rightarrow> Inl NullDereference
      | Ptr a off \<Rightarrow>
          (case block_at s a of
             Some (Struct n h) \<Rightarrow>
               if off = 0
               then Inr (s\<lparr>cells := (cells s)[a := Some (Struct (fst v) (snd v))]\<rparr>)
               else Inl InvalidAccess
           | _ \<Rightarrow> Inl InvalidAccess))"

definition set_n :: "heap \<Rightarrow> ptr \<Rightarrow> u32 \<Rightarrow> error + heap" where
  "set_n s q v = seq (load_struct s q) (\<lambda>(n, h). store_struct s q (v, h))"

definition set_h :: "heap \<Rightarrow> ptr \<Rightarrow> ptr \<Rightarrow> error + heap" where
  "set_h s q p = seq (load_struct s q) (\<lambda>(n, h). store_struct s q (n, p))"

text \<open>\<^verbatim>\<open>q->h[i]\<close> read and written, and the address \<^verbatim>\<open>&p[i]\<close>.\<close>

definition get_coef :: "heap \<Rightarrow> ptr \<Rightarrow> nat \<Rightarrow> error + real" where
  "get_coef s q i = seq (get_h s q) (\<lambda>qh. load s qh i)"

definition set_coef :: "heap \<Rightarrow> ptr \<Rightarrow> nat \<Rightarrow> real \<Rightarrow> error + heap" where
  "set_coef s q i v = seq (get_h s q) (\<lambda>qh. store s qh i v)"

definition index_ptr :: "ptr \<Rightarrow> nat \<Rightarrow> ptr" where
  "index_ptr p i = (case p of NULL \<Rightarrow> NULL | Ptr a off \<Rightarrow> Ptr a (off + i))"

text \<open>Reading and writing a run of floats, for \<^verbatim>\<open>memmove\<close> and the vector loads.\<close>

definition read_floats :: "heap \<Rightarrow> ptr \<Rightarrow> nat \<Rightarrow> error + real list" where
  "read_floats s p m =
     (case p of
        NULL \<Rightarrow> Inl NullDereference
      | Ptr a off \<Rightarrow>
          (case block_at s a of
             Some (Floats xs) \<Rightarrow>
               if off + m \<le> length xs then Inr (take m (drop off xs)) else Inl InvalidAccess
           | _ \<Rightarrow> Inl InvalidAccess))"

definition write_floats :: "heap \<Rightarrow> ptr \<Rightarrow> real list \<Rightarrow> error + heap" where
  "write_floats s p vs =
     (case p of
        NULL \<Rightarrow> Inl NullDereference
      | Ptr a off \<Rightarrow>
          (case block_at s a of
             Some (Floats xs) \<Rightarrow>
               if off + length vs \<le> length xs
               then Inr (s\<lparr>cells := (cells s)
                          [a := Some (Floats (take off xs @ vs @ drop (off + length vs) xs))]\<rparr>)
               else Inl InvalidAccess
           | _ \<Rightarrow> Inl InvalidAccess))"

text \<open>\<^verbatim>\<open>memmove(dst, src, m * sizeof(float))\<close>: the source is read whole, then written.\<close>

definition memmove_floats :: "heap \<Rightarrow> ptr \<Rightarrow> ptr \<Rightarrow> nat \<Rightarrow> error + heap" where
  "memmove_floats s dst src m = seq (read_floats s src m) (\<lambda>vs. write_floats s dst vs)"

section \<open>Creation, copy and destruction\<close>

text \<open>
  \<^verbatim>\<open>dotprod_crcf_create_opt\<close>. Neither allocation is checked. The sizes and the
  indices \<^verbatim>\<open>2*q->n\<close>, \<^verbatim>\<open>2*i+0\<close>, \<^verbatim>\<open>2*i+1\<close> and \<^verbatim>\<open>q->n-i-1\<close> are
  \<^verbatim>\<open>unsigned int\<close> expressions and wrap at \<open>2^32\<close>; the product with
  \<^verbatim>\<open>sizeof(float)\<close> is a \<^verbatim>\<open>size_t\<close> and does not. The loop test reads \<^verbatim>\<open>q->n\<close>,
  which the body, writing floats only, leaves as it is: the model reads it once.
\<close>

definition create_body :: "ptr \<Rightarrow> ptr \<Rightarrow> int \<Rightarrow> u32 \<Rightarrow> heap \<Rightarrow> error + heap" where
  "create_body q h rev' i s =
     seq (get_n s q) (\<lambda>qn.
     let k = (if rev' \<noteq> 0 then qn - i - 1 else i) in
     seq (load s h (unat k)) (\<lambda>v.
     seq (set_coef s q (unat (2 * i + 0)) v) (\<lambda>s.
     seq (load s h (unat k)) (\<lambda>v.
     set_coef s q (unat (2 * i + 1)) v))))"

definition dotprod_crcf_create_opt ::
  "heap \<Rightarrow> ptr \<Rightarrow> u32 \<Rightarrow> int \<Rightarrow> (error + heap \<times> ptr) option" where
  "dotprod_crcf_create_opt s h n rev' =
     (let (s, q) = malloc_struct s in
      after (Some (set_n s q n)) (\<lambda>s.
      after (Some (get_n s q)) (\<lambda>qn.
      let (s, p) = mm_malloc_floats s (unat (2 * qn)) in
      after (Some (set_h s q p)) (\<lambda>s.
      after (Some (get_n s q)) (\<lambda>qn.
      after (for_loop qn 1 (create_body q h rev') 0 s) (\<lambda>(i, s).
      Some (Inr (s, q))))))))"

definition dotprod_crcf_create :: "heap \<Rightarrow> ptr \<Rightarrow> u32 \<Rightarrow> (error + heap \<times> ptr) option" where
  "dotprod_crcf_create s h n = dotprod_crcf_create_opt s h n 0"

definition dotprod_crcf_create_rev :: "heap \<Rightarrow> ptr \<Rightarrow> u32 \<Rightarrow> (error + heap \<times> ptr) option" where
  "dotprod_crcf_create_rev s h n = dotprod_crcf_create_opt s h n 1"

text \<open>
  \<^verbatim>\<open>dotprod_crcf_print\<close> reads the object and writes to the standard output only; it
  is not modelled.
\<close>

text \<open>
  Modelled from the spec: \<^verbatim>\<open>liquid_error_config\<close> is declared in
  \<^verbatim>\<open>liquid.internal.h\<close>, outside this unit. By the specification the call makes
  \<^verbatim>\<open>dotprod_crcf_copy\<close> fail with an invalid-argument error: no object is returned.
\<close>

definition liquid_error_config :: "error + 'a" where
  "liquid_error_config = Inl (Failure LIQUID_EICONFIG)"

definition dotprod_crcf_copy :: "heap \<Rightarrow> ptr \<Rightarrow> error + heap \<times> ptr" where
  "dotprod_crcf_copy s q_orig =
     (if q_orig = NULL then liquid_error_config
      else
        let (s, q_copy) = malloc_struct s in
        seq (get_n s q_orig) (\<lambda>n.
        seq (set_n s q_copy n) (\<lambda>s.
        seq (get_n s q_copy) (\<lambda>cn.
        let (s, p) = mm_malloc_floats s (unat (2 * cn)) in
        seq (set_h s q_copy p) (\<lambda>s.
        seq (get_h s q_copy) (\<lambda>dst.
        seq (get_h s q_orig) (\<lambda>src.
        seq (get_n s q_orig) (\<lambda>n.
        seq (memmove_floats s dst src (unat (2 * n))) (\<lambda>s.
        Inr (s, q_copy))))))))))"

definition dotprod_crcf_destroy :: "heap \<Rightarrow> ptr \<Rightarrow> error + heap \<times> liquid_error_code" where
  "dotprod_crcf_destroy s q =
     seq (get_h s q) (\<lambda>qh.
     seq (free s qh) (\<lambda>s.
     seq (free s q) (\<lambda>s.
     Inr (s, LIQUID_OK))))"

definition dotprod_crcf_recreate ::
  "heap \<Rightarrow> ptr \<Rightarrow> ptr \<Rightarrow> u32 \<Rightarrow> (error + heap \<times> ptr) option" where
  "dotprod_crcf_recreate s q h n =
     after (Some (dotprod_crcf_destroy s q)) (\<lambda>(s, r). dotprod_crcf_create s h n)"

definition dotprod_crcf_recreate_rev ::
  "heap \<Rightarrow> ptr \<Rightarrow> ptr \<Rightarrow> u32 \<Rightarrow> (error + heap \<times> ptr) option" where
  "dotprod_crcf_recreate_rev s q h n =
     after (Some (dotprod_crcf_destroy s q)) (\<lambda>(s, r). dotprod_crcf_create_rev s h n)"

section \<open>Vector kernels\<close>

text \<open>
  A \<^verbatim>\<open>__m512\<close> register is a list of sixteen floats, lane \<open>0\<close> first; the
  register \<^verbatim>\<open>sum\<close> of the source is \<open>acc\<close> here. The intrinsics
  are those of \<^verbatim>\<open>immintrin.h\<close>: two loads of sixteen consecutive floats, the lanewise
  product and sum, and the sum of the lanes selected by a 16-bit mask.
\<close>

type_synonym m512 = "real list"

definition mm512_setzero_ps :: m512 where
  "mm512_setzero_ps = replicate 16 0"

definition mm512_loadu_ps :: "heap \<Rightarrow> ptr \<Rightarrow> error + m512" where
  "mm512_loadu_ps s p = read_floats s p 16"

definition mm512_load_ps :: "heap \<Rightarrow> ptr \<Rightarrow> error + m512" where
  "mm512_load_ps s p = read_floats s p 16"

definition mm512_mul_ps :: "m512 \<Rightarrow> m512 \<Rightarrow> m512" where
  "mm512_mul_ps a b = map2 (*) a b"

definition mm512_add_ps :: "m512 \<Rightarrow> m512 \<Rightarrow> m512" where
  "mm512_add_ps a b = map2 (+) a b"

definition mm512_mask_reduce_add_ps :: "16 word \<Rightarrow> m512 \<Rightarrow> real" where
  "mm512_mask_reduce_add_ps k a = (\<Sum>j\<leftarrow>[0..<16]. if bit k j then a ! j else 0)"

text \<open>One vector step: \<^verbatim>\<open>sum += x[i..i+15] * _q->h[i..i+15]\<close>.\<close>

definition vector_mac :: "heap \<Rightarrow> ptr \<Rightarrow> ptr \<Rightarrow> u32 \<Rightarrow> m512 \<Rightarrow> error + m512" where
  "vector_mac s q x i acc =
     seq (mm512_loadu_ps s (index_ptr x (unat i))) (\<lambda>v.
     seq (get_h s q) (\<lambda>qh.
     seq (mm512_load_ps s (index_ptr qh (unat i))) (\<lambda>h.
     let sv = mm512_mul_ps v h in
     Inr (mm512_add_ps acc sv))))"

text \<open>The cleanup step on the two running sums \<^verbatim>\<open>w[0]\<close> and \<^verbatim>\<open>w[1]\<close>.\<close>

definition cleanup :: "heap \<Rightarrow> ptr \<Rightarrow> ptr \<Rightarrow> u32 \<Rightarrow> real \<times> real \<Rightarrow> error + real \<times> real" where
  "cleanup s q x i w =
     seq (load s x (unat i)) (\<lambda>x0.
     seq (get_coef s q (unat i)) (\<lambda>h0.
     let w0 = fst w + x0 * h0 in
     seq (load s x (unat (i + 1))) (\<lambda>x1.
     seq (get_coef s q (unat (i + 1))) (\<lambda>h1.
     let w1 = snd w + x1 * h1 in
     Inr (w0, w1)))))"

definition dotprod_crcf_execute_avx512f ::
  "heap \<Rightarrow> ptr \<Rightarrow> ptr \<Rightarrow> ptr \<Rightarrow> (error + heap \<times> liquid_error_code) option" where
  "dotprod_crcf_execute_avx512f s q x y =
     after (Some (get_n s q)) (\<lambda>qn.
     let n = 2 * qn;
         t = push_bit 4 (drop_bit 4 n) in
     after (for_loop t 16 (vector_mac s q x) 0 mm512_setzero_ps) (\<lambda>(i, acc).
     let w = (mm512_mask_reduce_add_ps 0x5555 acc, mm512_mask_reduce_add_ps 0xAAAA acc) in
     after (for_loop n 2 (cleanup s q x) i w) (\<lambda>(i, w).
     Some (seq (store_complex s y (complex_of_real (fst w) + \<i> * complex_of_real (snd w)))
            (\<lambda>s'. Inr (s', LIQUID_OK))))))"

text \<open>The four loads, products and additions of one step of the wide kernel.\<close>

definition vector_mac4 :: "heap \<Rightarrow> ptr \<Rightarrow> ptr \<Rightarrow> u32 \<Rightarrow> m512 \<Rightarrow> error + m512" where
  "vector_mac4 s q x i acc =
     seq (mm512_loadu_ps s (index_ptr x (unat (4 * i + 0)))) (\<lambda>v0.
     seq (mm512_loadu_ps s (index_ptr x (unat (4 * i + 16)))) (\<lambda>v1.
     seq (mm512_loadu_ps s (index_ptr x (unat (4 * i + 32)))) (\<lambda>v2.
     seq (mm512_loadu_ps s (index_ptr x (unat (4 * i + 48)))) (\<lambda>v3.
     seq (get_h s q) (\<lambda>qh.
     seq (mm512_load_ps s (index_ptr qh (unat (4 * i + 0)))) (\<lambda>h0.
     seq (mm512_load_ps s (index_ptr qh (unat (4 * i + 16)))) (\<lambda>h1.
     seq (mm512_load_ps s (index_ptr qh (unat (4 * i + 32)))) (\<lambda>h2.
     seq (mm512_load_ps s (index_ptr qh (unat (4 * i + 48)))) (\<lambda>h3.
     let s0 = mm512_mul_ps v0 h0;
         s1 = mm512_mul_ps v1 h1;
         s2 = mm512_mul_ps v2 h2;
         s3 = mm512_mul_ps v3 h3;
         acc = mm512_add_ps acc s0;
         acc = mm512_add_ps acc s1;
         acc = mm512_add_ps acc s2;
         acc = mm512_add_ps acc s3 in
     Inr acc)))))))))"

definition dotprod_crcf_execute_avx512f4 ::
  "heap \<Rightarrow> ptr \<Rightarrow> ptr \<Rightarrow> ptr \<Rightarrow> (error + heap \<times> liquid_error_code) option" where
  "dotprod_crcf_execute_avx512f4 s q x y =
     after (Some (get_n s q)) (\<lambda>qn.
     let n = 2 * qn;
         r = push_bit 4 (drop_bit 6 n) in
     after (for_loop r 16 (vector_mac4 s q x) 0 mm512_setzero_ps) (\<lambda>(i, acc).
     let w = (mm512_mask_reduce_add_ps 0x5555 acc, mm512_mask_reduce_add_ps 0xAAAA acc) in
     after (for_loop n 2 (cleanup s q x) (4 * r) w) (\<lambda>(i, w).
     Some (seq (store_complex s y (complex_of_real (fst w) + complex_of_real (snd w) * \<i>))
            (\<lambda>s'. Inr (s', LIQUID_OK))))))"

text \<open>\<^verbatim>\<open>dotprod_crcf_execute\<close>: the switch on the size.\<close>

definition dotprod_crcf_execute ::
  "heap \<Rightarrow> ptr \<Rightarrow> ptr \<Rightarrow> ptr \<Rightarrow> (error + heap \<times> liquid_error_code) option" where
  "dotprod_crcf_execute s q x y =
     after (Some (get_n s q)) (\<lambda>qn.
     if qn < 128 then dotprod_crcf_execute_avx512f s q x y
     else dotprod_crcf_execute_avx512f4 s q x y)"

section \<open>Reference values\<close>

text \<open>
  The dot product as the specification writes it: the sum over \<open>i\<close> of
  \<open>h[i] * x[i]\<close>, a real coefficient times a complex sample.
\<close>

definition dot_product :: "real list \<Rightarrow> complex list \<Rightarrow> complex" where
  "dot_product hs xs = (\<Sum>i<length hs. complex_of_real (hs ! i) * xs ! i)"

text \<open>
  The sum of the first \<open>k\<close> terms as single precision accumulates it, one term after
  another in index order. A run is in range when no product and no partial sum reaches
  \<open>2^128\<close>, and unrounded when every product and every partial sum is a binary32 value
  as it is, so that no operation rounds.
\<close>

definition rounded_sum :: "real list \<Rightarrow> complex list \<Rightarrow> nat \<Rightarrow> complex" where
  "rounded_sum hs xs k =
     foldl (\<lambda>r i. float_complex_add r (float_complex_scale (hs ! i) (xs ! i))) 0 [0..<k]"




text \<open>
  The layout of the coefficient buffer in the specification: every coefficient twice,
  in order. An object is what a handle leads to: the count \<open>n\<close> in the record and the
  floats of the buffer that the record points to.
\<close>

definition duplicate :: "real list \<Rightarrow> real list" where
  "duplicate c = concat (map (\<lambda>v. [v, v]) c)"

definition object_at :: "heap \<Rightarrow> ptr \<Rightarrow> (u32 \<times> real list) option" where
  "object_at s q =
     (case load_struct s q of
        Inr (n, Ptr b off) \<Rightarrow>
          (case block_at s b of
             Some (Floats buf) \<Rightarrow> if off = 0 then Some (n, buf) else None
           | _ \<Rightarrow> None)
      | _ \<Rightarrow> None)"

text \<open>
  An outcome that is no error code of the library: the operation has succeeded, or it
  has stopped where C defines no behaviour.
\<close>

definition undefined_behaviour :: "error + 'a \<Rightarrow> bool" where
  "undefined_behaviour m \<longleftrightarrow> (case m of Inl (Failure e) \<Rightarrow> False | _ \<Rightarrow> True)"

text \<open>The block that a pointer points into.\<close>

definition block_of :: "ptr \<Rightarrow> nat option" where
  "block_of p = (case p of NULL \<Rightarrow> None | Ptr a off \<Rightarrow> Some a)"



text \<open>
  A heap with one more object at its end: the record in the first new block, pointing
  to the buffer in the second, and the bytes of both taken from the memory left.
\<close>

definition with_object :: "heap \<Rightarrow> u32 \<Rightarrow> real list \<Rightarrow> heap" where
  "with_object s n buf =
     s\<lparr>cells := cells s @ [Some (Struct n (Ptr (Suc (length (cells s))) 0)), Some (Floats buf)],
       avail := avail s - sizeof_dotprod_crcf_s - length buf * sizeof_float\<rparr>"

text \<open>The coefficients in the order in which creation lays them out.\<close>

definition ordered :: "int \<Rightarrow> real list \<Rightarrow> real list" where
  "ordered rev' c = (if rev' \<noteq> 0 then rev c else c)"

text \<open>
  A handle \<open>q\<close> is a dot-product object with the coefficients \<open>c\<close>, in the order in
  which it applies them: the record holds their number and the buffer is their
  duplicated layout. The number is below \<open>2^31\<close>, so that \<^verbatim>\<open>2*n\<close> does not
  wrap; creation returns no object with more.
\<close>

definition dotprod_object :: "heap \<Rightarrow> ptr \<Rightarrow> u32 \<Rightarrow> real list \<Rightarrow> bool" where
  "dotprod_object s q n c \<longleftrightarrow>
     object_at s q = Some (n, duplicate c) \<and> length c = unat n \<and> unat n < 2 ^ 31"

text \<open>
  The two real products that sample \<open>m\<close> contributes: its real part and its imaginary
  part, each with the float of the buffer at the same position.
\<close>

definition re_term :: "real list \<Rightarrow> real list \<Rightarrow> nat \<Rightarrow> real" where
  "re_term xf buf m = xf ! (2 * m) * buf ! (2 * m)"

definition im_term :: "real list \<Rightarrow> real list \<Rightarrow> nat \<Rightarrow> real" where
  "im_term xf buf m = xf ! (2 * m + 1) * buf ! (2 * m + 1)"

text \<open>Four consecutive runs of a loop body, as an unrolled loop writes them.\<close>

definition unrolled4 :: "(u32 \<Rightarrow> 'a \<Rightarrow> error + 'a) \<Rightarrow> u32 \<Rightarrow> 'a \<Rightarrow> error + 'a" where
  "unrolled4 body i a =
     seq (body i a) (\<lambda>a. seq (body (i + 1) a) (\<lambda>a. seq (body (i + 2) a) (\<lambda>a. body (i + 3) a)))"

text \<open>
  A small memory for concrete runs: the coefficients \<open>1, 2, 3\<close> in block 0, the samples
  \<open>(1,0), (0,1), (1,1)\<close> in block 1 and an output cell in block 2.
\<close>

definition heap0 :: heap where
  "heap0 = \<lparr>cells = [Some (Floats [1, 2, 3]), Some (Floats [1, 0, 0, 1, 1, 1]), Some (Floats [0, 0])],
            avail = 0\<rparr>"

text \<open>A second one with five coefficients and five samples: one group of four and a remainder.\<close>

definition heap1 :: heap where
  "heap1 = \<lparr>cells = [Some (Floats [1, 2, 3, 4, 5]),
                     Some (Floats [1, 0, 0, 1, 1, 1, 2, 0, 0, 2]),
                     Some (Floats [0, 0])],
            avail = 0\<rparr>"

text \<open>
  The first memory with an object for its coefficients: the record in block 3 and the
  buffer in block 4. And a memory with 128 coefficients and 128 samples, all of them 1,
  for the wide kernel.
\<close>

definition heap2 :: heap where
  "heap2 = \<lparr>cells = [Some (Floats [1, 2, 3]), Some (Floats [1, 0, 0, 1, 1, 1]), Some (Floats [0, 0]),
                     Some (Struct 3 (Ptr 4 0)), Some (Floats [1, 1, 2, 2, 3, 3])],
            avail = 0\<rparr>"

definition heap3 :: heap where
  "heap3 = \<lparr>cells = [Some (Floats (replicate 128 1)), Some (Floats (replicate 256 1)),
                     Some (Floats [0, 0]),
                     Some (Struct 128 (Ptr 4 0)), Some (Floats (duplicate (replicate 128 1)))],
            avail = 0\<rparr>"

text \<open>
  A memory with an object of no coefficients whose buffer pointer is \<open>NULL\<close>, and an
  output cell holding other values.
\<close>

definition heap4 :: heap where
  "heap4 = \<lparr>cells = [Some (Struct 0 NULL), Some (Floats [7, 7])], avail = 0\<rparr>"

text \<open>
  A memory with room for a new object: the coefficients \<open>1, 2, 3\<close> in block 0, the same
  reversed in block 1, three samples in block 2 and an output cell in block 3.
\<close>

definition heap5 :: heap where
  "heap5 = \<lparr>cells = [Some (Floats [1, 2, 3]), Some (Floats [3, 2, 1]),
                     Some (Floats [1, 0, 0, 1, 1, 1]), Some (Floats [0, 0])],
            avail = 64\<rparr>"

text \<open>The memory with the object, with room for a copy of it.\<close>

definition heap6 :: heap where
  "heap6 = heap2\<lparr>avail := 64\<rparr>"

text \<open>
  Two memories in which the kernels differ, for the switch on the size: a record of
  \<open>8\<close> coefficients and one of \<open>128\<close>, both with the buffer pointer \<open>NULL\<close>, and
  samples too few for the loads. In the first the narrow kernel stops at its vector
  load of the samples and the wide kernel, which has no group of 64 floats there, at
  the buffer; in the second the narrow kernel stops at the buffer and the wide kernel
  at its second vector load of the samples.
\<close>

definition heap7 :: heap where
  "heap7 = \<lparr>cells = [Some (Struct 8 NULL), Some (Floats [1, 0]), Some (Floats [0, 0])], avail = 0\<rparr>"

definition heap8 :: heap where
  "heap8 = \<lparr>cells = [Some (Struct 128 NULL), Some (Floats (replicate 16 1)), Some (Floats [0, 0])],
            avail = 0\<rparr>"



section \<open>Basic facts\<close>

lemma seq_Inr [simp]: "seq (Inr v) f = f v"
  by (simp add: seq_def)

lemma seq_Inl [simp]: "seq (Inl e) f = Inl e"
  by (simp add: seq_def)

lemma after_Some_Inr [simp]: "after (Some (Inr v)) f = f v"
  by (simp add: after_def)

lemma after_Some_Inl [simp]: "after (Some (Inl e)) f = Some (Inl e)"
  by (simp add: after_def)

lemma after_None [simp]: "after None f = None"
  by (simp add: after_def)

lemma after_after: "after (after m f) g = after m (\<lambda>v. after (f v) g)"
  by (simp add: after_def split: option.splits sum.splits)

subsection \<open>Memory\<close>

lemma floats_at_length: "floats_at s p m = Some fs \<Longrightarrow> length fs = m"
  by (auto simp: floats_at_def split: if_splits ptr.splits option.splits block.splits)

lemma floats_at_load: "floats_at s p m = Some fs \<Longrightarrow> i < m \<Longrightarrow> load s p i = Inr (fs ! i)"
  by (auto simp: floats_at_def load_def split: if_splits ptr.splits option.splits block.splits)

lemma complexes_at_length: "complexes_at s p m = Some xs \<Longrightarrow> length xs = m"
  by (auto simp: complexes_at_def interleaved_def dest: floats_at_length)

lemma complexes_at_load:
  assumes "complexes_at s p m = Some xs" and "i < m"
  shows "load_complex s p i = Inr (xs ! i)"
proof -
  from assms(1) obtain fs where fs: "floats_at s p (2 * m) = Some fs" and xs: "xs = interleaved fs"
    by (auto simp: complexes_at_def)
  have len: "length fs = 2 * m" using fs by (rule floats_at_length)
  have "load s p (2 * i) = Inr (fs ! (2 * i))" "load s p (2 * i + 1) = Inr (fs ! (2 * i + 1))"
    using fs assms(2) by (auto intro!: floats_at_load)
  then show ?thesis
    using assms(2) by (simp add: load_complex_def xs interleaved_def len)
qed

lemma store_Floats:
  assumes "block_at s a = Some (Floats fs)" and "off + i < length fs"
  shows "store s (Ptr a off) i v = Inr (s\<lparr>cells := (cells s)[a := Some (Floats (fs[off + i := v]))]\<rparr>)"
  using assms by (simp add: store_def)

lemma block_at_update:
  "block_at (s\<lparr>cells := (cells s)[a := b]\<rparr>) a' =
     (if a' = a \<and> a < length (cells s) then b else block_at s a')"
  by (simp add: block_at_def nth_list_update)

lemma floats_at_2D:
  assumes "floats_at s y 2 \<noteq> None"
  obtains a off fs where "y = Ptr a off" and "block_at s a = Some (Floats fs)"
    and "off + 2 \<le> length fs"
  using assms
  by (auto simp: floats_at_def split: if_splits ptr.splits option.splits block.splits)

lemma store_complex_Floats:
  assumes "block_at s a = Some (Floats fs)" and "off + 2 \<le> length fs"
  shows "store_complex s (Ptr a off) v =
         Inr (s\<lparr>cells := (cells s)[a := Some (Floats (fs[off := Re v, Suc off := Im v]))]\<rparr>)"
proof -
  have a: "a < length (cells s)"
    using assms(1) by (simp add: block_at_def split: if_splits)
  let ?s1 = "s\<lparr>cells := (cells s)[a := Some (Floats (fs[off := Re v]))]\<rparr>"
  have 1: "store s (Ptr a off) 0 (Re v) = Inr ?s1"
    using store_Floats [OF assms(1), of off 0] assms(2) by simp
  have b1: "block_at ?s1 a = Some (Floats (fs[off := Re v]))"
    using a by (simp add: block_at_update)
  have 2: "store ?s1 (Ptr a off) 1 (Im v) =
           Inr (s\<lparr>cells := (cells s)[a := Some (Floats (fs[off := Re v, Suc off := Im v]))]\<rparr>)"
  proof -
    have "off + 1 < length (fs[off := Re v])" using assms(2) by simp
    from store_Floats [OF b1 this] show ?thesis by simp
  qed
  show ?thesis
    unfolding store_complex_def 1 seq_Inr by (rule 2)
qed

lemma store_complex_ok:
  assumes "floats_at s y 2 \<noteq> None"
  shows "\<exists>s'. store_complex s y v = Inr s' \<and> complexes_at s' y 1 = Some [v]"
proof -
  from assms obtain a off fs where y: "y = Ptr a off" and b: "block_at s a = Some (Floats fs)"
    and len: "off + 2 \<le> length fs"
    by (rule floats_at_2D)
  have a: "a < length (cells s)"
    using b by (simp add: block_at_def split: if_splits)
  let ?s = "s\<lparr>cells := (cells s)[a := Some (Floats (fs[off := Re v, Suc off := Im v]))]\<rparr>"
  have "take 2 (drop off (fs[off := Re v, Suc off := Im v])) = [Re v, Im v]"
    using len by (intro nth_equalityI) (auto simp: less_Suc_eq numeral_2_eq_2)
  then have "complexes_at ?s y 1 = Some [v]"
    using len a by (simp add: complexes_at_def floats_at_def y block_at_update interleaved_def)
  then show ?thesis
    using store_complex_Floats [OF b len] y by simp
qed

subsection \<open>Words\<close>

lemma unat_Suc_less:
  fixes i m :: u32
  assumes "i < m"
  shows "unat (i + 1) = Suc (unat i)"
proof -
  have "unat i < unat m" using assms by (simp add: word_less_nat_alt)
  moreover have "unat m < 2 ^ 32" using unsigned_less [of m, where 'a = nat] by simp
  ultimately have "unat i + unat (1::u32) < 2 ^ LENGTH(32)" by simp
  then show ?thesis by (simp add: unat_add_lem [THEN iffD1])
qed

lemma unat_push_drop:
  fixes n :: u32
  assumes "k \<le> j"
  shows "unat (push_bit k (drop_bit j n)) = 2 ^ k * (unat n div 2 ^ j)"
proof -
  have "2 ^ k * (unat n div 2 ^ j) \<le> 2 ^ j * (unat n div 2 ^ j)"
    using assms by (simp add: power_increasing)
  also have "\<dots> \<le> unat n" by simp
  also have "unat n < 2 ^ 32" using unsigned_less [of n, where 'a = nat] by simp
  finally have lt: "2 ^ k * (unat n div 2 ^ j) < 2 ^ 32" .
  have "unat (push_bit k (drop_bit j n)) = take_bit 32 (push_bit k (drop_bit j (unat n)))"
    by (simp only: unsigned_push_bit_eq unat_drop_bit_eq) simp
  also have "\<dots> = take_bit 32 (2 ^ k * (unat n div 2 ^ j))"
    by (simp only: push_bit_eq_mult drop_bit_eq_div mult.commute)
  also have "\<dots> = 2 ^ k * (unat n div 2 ^ j)"
    using lt by (simp only: take_bit_nat_eq_self)
  finally show ?thesis .
qed

subsection \<open>Loops\<close>

lemma for_loop_step:
  "i < bound \<Longrightarrow> for_loop bound step body i a =
     (case body i a of Inl e \<Rightarrow> Some (Inl e) | Inr a' \<Rightarrow> for_loop bound step body (i + step) a')"
  by (subst for_loop.simps) simp

lemma for_loop_done:
  "\<not> i < bound \<Longrightarrow> for_loop bound step body i a = Some (Inr (i, a))"
  by (subst for_loop.simps) simp

lemma foldl_upt_Suc_shift:
  "foldl g a [0..<Suc k] = foldl (\<lambda>a j. g a (Suc j)) (g a 0) [0..<k]"
proof -
  have "[0..<Suc k] = 0 # map Suc [0..<k]"
    by (simp add: upt_conv_Cons map_Suc_upt del: upt_Suc)
  then show ?thesis
    by (simp add: foldl_map del: upt_Suc)
qed

lemma foldl_add_sum:
  "foldl (\<lambda>r j. r + g j) a [0..<k] = a + (\<Sum>j<k. g j)" for a :: "'a::comm_monoid_add"
  by (induction k) (simp_all add: add.assoc)

text \<open>
  A loop whose counter reaches its bound exactly after \<open>k\<close> steps, and whose body
  succeeds at each of them, ends there with the \<open>k\<close> bodies applied in order.
\<close>

lemma for_loop_exact:
  assumes "unat i + k * unat step = unat bound" and "0 < unat step"
    and "\<And>j a. j < k \<Longrightarrow> body (i + of_nat j * step) a = Inr (f j a)"
  shows "for_loop bound step body i a = Some (Inr (bound, foldl (\<lambda>a j. f j a) a [0..<k]))"
  using assms
proof (induction k arbitrary: i a f)
  case 0
  then have "i = bound" by (simp add: word_unat_eq_iff)
  then show ?case by (simp add: for_loop_done)
next
  case (Suc k)
  have lt: "i < bound"
    using Suc.prems(1,2) by (simp add: word_less_nat_alt)
  have b0: "body i a = Inr (f 0 a)"
    using Suc.prems(3) [of 0 a] by simp
  have "unat i + unat step < 2 ^ 32"
    using Suc.prems(1) unsigned_less [of bound, where 'a = nat] by simp
  then have un: "unat (i + step) = unat i + unat step"
    by (simp add: unat_add_lem [THEN iffD1])
  have bs: "body (i + step + of_nat j * step) a' = Inr (f (Suc j) a')" if "j < k" for j a'
    using Suc.prems(3) [of "Suc j" a'] that by (simp add: algebra_simps)
  have "for_loop bound step body (i + step) (f 0 a)
        = Some (Inr (bound, foldl (\<lambda>a j. f (Suc j) a) (f 0 a) [0..<k]))"
    by (rule Suc.IH) (use Suc.prems un bs in simp_all)
  then show ?case
    by (simp add: for_loop_step lt b0 foldl_upt_Suc_shift del: upt_Suc)
qed

text \<open>A loop with step one may be cut at any point on its way.\<close>

lemma for_loop_split:
  fixes i m n :: u32
  assumes "i \<le> m" and "m \<le> n"
  shows "after (for_loop m 1 body i a) (\<lambda>(i', a'). for_loop n 1 body i' a') = for_loop n 1 body i a"
  using assms(1)
proof (induction k \<equiv> "unat m - unat i" arbitrary: i a)
  case 0
  then have "i = m" by (simp add: word_le_nat_alt word_unat_eq_iff)
  then show ?case by (simp add: for_loop_done)
next
  case (Suc k)
  then have lt: "i < m" by (simp add: word_less_nat_alt)
  then have ltn: "i < n" using assms(2) by simp
  have un: "unat (i + 1) = Suc (unat i)" using lt by (rule unat_Suc_less)
  have le: "i + 1 \<le> m" using lt un by (simp add: word_le_nat_alt word_less_nat_alt)
  have k: "k = unat m - unat (i + 1)" using Suc.hyps(2) un by simp
  show ?case
  proof (cases "body i a")
    case (Inl e)
    then show ?thesis by (simp add: for_loop_step lt ltn)
  next
    case (Inr a')
    then show ?thesis
      using Suc.hyps(1) [OF k le, of a'] by (simp add: for_loop_step lt ltn)
  qed
qed

text \<open>Unrolling by four changes nothing when the bound is a whole number of groups away.\<close>

lemma for_loop_unroll4:
  fixes i t :: u32
  assumes "unat i + 4 * k = unat t"
  shows "for_loop t 4 (unrolled4 body) i a = for_loop t 1 body i a"
  using assms
proof (induction k arbitrary: i a)
  case 0
  then have "i = t" by (simp add: word_unat_eq_iff)
  then show ?case by (simp add: for_loop_done)
next
  case (Suc k)
  have bt: "unat t < 2 ^ 32" using unsigned_less [of t, where 'a = nat] by simp
  have u1: "unat (i + 1) = unat i + 1" "unat (i + 2) = unat i + 2"
    "unat (i + 3) = unat i + 3" "unat (i + 4) = unat i + 4"
    using Suc.prems bt by (simp_all add: unat_add_lem [THEN iffD1])
  have lt: "i < t" "i + 1 < t" "i + 2 < t" "i + 3 < t"
    using Suc.prems u1 by (simp_all add: word_less_nat_alt)
  have nxt: "i + 1 + 1 = i + 2" "i + 2 + 1 = i + 3" "i + 3 + 1 = i + 4" by simp_all
  have IH: "for_loop t 4 (unrolled4 body) (i + 4) a' = for_loop t 1 body (i + 4) a'" for a'
    using Suc.prems u1 by (intro Suc.IH) simp
  have st: "unrolled4 body i a =
     seq (body i a) (\<lambda>a. seq (body (i + 1) a) (\<lambda>a. seq (body (i + 2) a) (\<lambda>a. body (i + 3) a)))"
    by (simp add: unrolled4_def)
  show ?case
    by (simp add: for_loop_step lt nxt IH st seq_def split: sum.splits)
qed

section \<open>The scalar kernels\<close>

lemma mac_ok:
  assumes "floats_at s h m = Some hs" and "complexes_at s x m = Some xs" and "unat i < m"
  shows "mac s h x i r = Inr (r + complex_of_real (hs ! unat i) * xs ! unat i)"
  using assms by (simp add: mac_def floats_at_load complexes_at_load)

lemma run_loop:
  assumes "floats_at s h (unat n) = Some hs" and "complexes_at s x (unat n) = Some xs"
  shows "for_loop n 1 (\<lambda>i r. mac s h x i r) 0 0
         = Some (Inr (n, foldl (\<lambda>r i. r + complex_of_real (hs ! i) * xs ! i) 0 [0..<unat n]))"
proof (rule for_loop_exact)
  show "unat (0::u32) + unat n * unat (1::u32) = unat n" by simp
  show "0 < unat (1::u32)" by simp
next
  fix j a assume j: "j < unat n"
  then have "unat (of_nat j :: u32) = j"
    by (intro le_unat_uoi [of _ n]) simp
  then show "mac s h x (0 + of_nat j * 1) a = Inr (a + complex_of_real (hs ! j) * xs ! j)"
    using mac_ok [OF assms, of "of_nat j" a] j by simp
qed

lemma run_fold:
  assumes "floats_at s h (unat n) = Some hs"
  shows "foldl (\<lambda>r i. r + complex_of_real (hs ! i) * xs ! i) 0 [0..<unat n] = dot_product hs xs"
  using floats_at_length [OF assms] by (simp add: foldl_add_sum dot_product_def)

lemma run_value:
  assumes "floats_at s h (unat n) = Some hs" and "complexes_at s x (unat n) = Some xs"
  shows "dotprod_crcf_run s h x n y
         = Some (seq (store_complex s y (dot_product hs xs)) (\<lambda>s'. Inr (s', LIQUID_OK)))"
  by (simp add: dotprod_crcf_run_def run_loop [OF assms] run_fold [OF assms(1)])

lemma run4_eq_run: "dotprod_crcf_run4 s h x n y = dotprod_crcf_run s h x n y"
proof -
  let ?t = "push_bit 2 (drop_bit 2 n) :: u32"
  have ut: "unat ?t = 4 * (unat n div 4)"
    using unat_push_drop [of 2 2 n] by simp
  then have le: "?t \<le> n" by (simp add: word_le_nat_alt)
  have a: "for_loop ?t 4 (unrolled4 (mac s h x)) 0 0 = for_loop ?t 1 (mac s h x) 0 0"
    by (rule for_loop_unroll4 [where k = "unat n div 4"]) (simp add: ut)
  have b: "after (for_loop ?t 1 (mac s h x) 0 0) (\<lambda>(i', a'). for_loop n 1 (mac s h x) i' a')
      = for_loop n 1 (mac s h x) 0 0"
    by (rule for_loop_split) (simp_all add: le)
  let ?fin = "\<lambda>(i :: u32, r). Some (seq (store_complex s y r) (\<lambda>s'. Inr (s', LIQUID_OK)))"
  have "dotprod_crcf_run4 s h x n y
        = after (for_loop ?t 4 (unrolled4 (mac s h x)) 0 0)
            (\<lambda>(i, r). after (for_loop n 1 (mac s h x) i r) ?fin)"
  proof -
    have "unrolled4 (mac s h x) = (\<lambda>i r. seq (mac s h x i r) (\<lambda>r.
                       seq (mac s h x (i + 1) r) (\<lambda>r.
                       seq (mac s h x (i + 2) r) (\<lambda>r.
                       mac s h x (i + 3) r))))"
      by (intro ext) (simp add: unrolled4_def)
    then show ?thesis
      by (simp add: dotprod_crcf_run4_def Let_def)
  qed
  also have "\<dots> = after (after (for_loop ?t 1 (mac s h x) 0 0) (\<lambda>(i', a'). for_loop n 1 (mac s h x) i' a')) ?fin"
    by (simp only: a after_after case_prod_unfold)
  also have "\<dots> = dotprod_crcf_run s h x n y"
    by (simp only: b dotprod_crcf_run_def)
  finally show ?thesis .
qed

lemma heap0_coefficients: "floats_at heap0 (Ptr 0 0) (unat (3::u32)) = Some [1, 2, 3]"
  by (simp add: floats_at_def heap0_def block_at_def)



lemma heap0_dot_product:
  "dot_product [1, 2, 3] [Complex 1 0, Complex 0 1, Complex 1 1] = Complex 4 5"
  by (simp add: dot_product_def lessThan_Suc numeral_3_eq_3 complex_eq_iff)

text \<open>
  C5. For every \<open>n\<close>, \<open>h\<close> and \<open>x\<close>, the unrolled \<^verbatim>\<open>dotprod_crcf_run4\<close> (groups of four
  terms up to \<open>t = 4 * (n div 4)\<close>, then the remaining \<open>n mod 4\<close> terms one at a time) has
  the same outcome as the plain loop of \<^verbatim>\<open>dotprod_crcf_run\<close>; on arrays of \<open>n\<close> elements
  that outcome is the dot product stored into the output.
\<close>

theorem run4_same_as_run:
  "dotprod_crcf_run4 s h x n y = dotprod_crcf_run s h x n y
   \<and> unat (push_bit 2 (drop_bit 2 n) :: u32) = 4 * (unat n div 4)
   \<and> (floats_at s h (unat n) = Some hs \<longrightarrow> complexes_at s x (unat n) = Some xs \<longrightarrow>
        floats_at s y 2 \<noteq> None \<longrightarrow>
        (\<exists>s'. dotprod_crcf_run4 s h x n y = Some (Inr (s', LIQUID_OK))
              \<and> complexes_at s' y 1 = Some [dot_product hs xs]))"
proof (intro conjI impI)
  show "dotprod_crcf_run4 s h x n y = dotprod_crcf_run s h x n y"
    by (rule run4_eq_run)
  show "unat (push_bit 2 (drop_bit 2 n) :: u32) = 4 * (unat n div 4)"
    using unat_push_drop [of 2 2 n] by simp
next
  assume a: "floats_at s h (unat n) = Some hs" "complexes_at s x (unat n) = Some xs"
    and y: "floats_at s y 2 \<noteq> None"
  obtain s' where "store_complex s y (dot_product hs xs) = Inr s'"
    "complexes_at s' y 1 = Some [dot_product hs xs]"
    using store_complex_ok [OF y] by blast
  then show "\<exists>s'. dotprod_crcf_run4 s h x n y = Some (Inr (s', LIQUID_OK))
              \<and> complexes_at s' y 1 = Some [dot_product hs xs]"
    by (simp add: run4_eq_run run_value [OF a])
qed

lemma heap1_coefficients: "floats_at heap1 (Ptr 0 0) (unat (5::u32)) = Some [1, 2, 3, 4, 5]"
  by (simp add: floats_at_def heap1_def block_at_def)

lemma heap1_samples:
  "complexes_at heap1 (Ptr 1 0) (unat (5::u32))
   = Some [Complex 1 0, Complex 0 1, Complex 1 1, Complex 2 0, Complex 0 2]"
  by (simp add: complexes_at_def floats_at_def heap1_def block_at_def interleaved_def upt_conv_Cons)

lemma heap1_output: "floats_at heap1 (Ptr 2 0) 2 \<noteq> None"
  by (simp add: floats_at_def heap1_def block_at_def)

lemma heap1_dot_product:
  "dot_product [1, 2, 3, 4, 5] [Complex 1 0, Complex 0 1, Complex 1 1, Complex 2 0, Complex 0 2]
   = Complex 12 15"
  by (simp add: dot_product_def lessThan_Suc eval_nat_numeral complex_eq_iff)

theorem run4_same_as_run_witness:
  "floats_at heap1 (Ptr 0 0) (unat (5::u32)) = Some [1, 2, 3, 4, 5]
   \<and> complexes_at heap1 (Ptr 1 0) (unat (5::u32))
       = Some [Complex 1 0, Complex 0 1, Complex 1 1, Complex 2 0, Complex 0 2]
   \<and> floats_at heap1 (Ptr 2 0) 2 \<noteq> None
   \<and> dotprod_crcf_run4 heap1 (Ptr 0 0) (Ptr 1 0) 5 (Ptr 2 0)
       = dotprod_crcf_run heap1 (Ptr 0 0) (Ptr 1 0) 5 (Ptr 2 0)
   \<and> (\<exists>s'. dotprod_crcf_run4 heap1 (Ptr 0 0) (Ptr 1 0) 5 (Ptr 2 0) = Some (Inr (s', LIQUID_OK))
          \<and> complexes_at s' (Ptr 2 0) 1 = Some [Complex 12 15])"
proof -
  note inst = run4_same_as_run [of heap1 "Ptr 0 0" "Ptr 1 0" 5 "Ptr 2 0" "[1, 2, 3, 4, 5]"
      "[Complex 1 0, Complex 0 1, Complex 1 1, Complex 2 0, Complex 0 2]"]
  from inst have same: "dotprod_crcf_run4 heap1 (Ptr 0 0) (Ptr 1 0) 5 (Ptr 2 0)
       = dotprod_crcf_run heap1 (Ptr 0 0) (Ptr 1 0) 5 (Ptr 2 0)"
    by (rule conjunct1)
  from inst heap1_coefficients heap1_samples heap1_output
  have "\<exists>s'. dotprod_crcf_run4 heap1 (Ptr 0 0) (Ptr 1 0) 5 (Ptr 2 0) = Some (Inr (s', LIQUID_OK))
          \<and> complexes_at s' (Ptr 2 0) 1 = Some [Complex 12 15]"
    unfolding heap1_dot_product by blast
  with same heap1_coefficients heap1_samples heap1_output show ?thesis
    by blast
qed

subsection \<open>Single precision\<close>

lemma round_to_even_of_int [simp]: "round_to_even (of_int m) = m"
  by (simp add: round_to_even_def)

text \<open>The rounded number is a multiple of the spacing, at most half a spacing away.\<close>

lemma ulp_from_pos: "0 < u \<Longrightarrow> 0 < ulp_from k u v"
  by (induction k arbitrary: u) simp_all

lemma binary32_ulp_pos: "0 < binary32_ulp v"
  by (simp add: binary32_ulp_def ulp_from_pos)

lemma round_to_even_near: "\<bar>of_int (round_to_even t) - t\<bar> \<le> 1 / 2"
  unfolding round_to_even_def Let_def by (auto simp: abs_if) linarith+

lemma binary32_round_nearest: "\<bar>binary32_round v - v\<bar> \<le> binary32_ulp v / 2"
proof -
  let ?u = "binary32_ulp v"
  have u: "0 < ?u" by (rule binary32_ulp_pos)
  have "binary32_round v - v = (of_int (round_to_even (v / ?u)) - v / ?u) * ?u"
    using u by (simp add: binary32_round_def algebra_simps)
  then have "\<bar>binary32_round v - v\<bar> = \<bar>of_int (round_to_even (v / ?u)) - v / ?u\<bar> * ?u"
    using u by (simp add: abs_mult)
  also have "\<dots> \<le> 1 / 2 * ?u"
    using round_to_even_near [of "v / ?u"] u by (intro mult_right_mono) simp_all
  finally show ?thesis by simp
qed


lemma ulp_from_some:
  assumes "j \<le> k" and "0 \<le> u" and "v < 2 ^ 24 * (u * 2 ^ j)"
  shows "\<exists>i\<le>j. ulp_from k u v = u * 2 ^ i"
  using assms
proof (induction k arbitrary: u j)
  case 0
  then show ?case by simp
next
  case (Suc k)
  show ?case
  proof (cases "v < 2 ^ 24 * u")
    case True
    then show ?thesis by (intro exI [of _ 0]) simp
  next
    case False
    then have "j \<noteq> 0" using Suc.prems(3) by (cases j) auto
    then obtain j' where j': "j = Suc j'" by (cases j) auto
    have "\<exists>i\<le>j'. ulp_from k (2 * u) v = 2 * u * 2 ^ i"
      by (rule Suc.IH) (use Suc.prems j' in \<open>simp_all add: mult_ac\<close>)
    then obtain i where "i \<le> j'" "ulp_from k (2 * u) v = 2 * u * 2 ^ i" by blast
    then show ?thesis
      using False j' by (intro exI [of _ "Suc i"]) simp
  qed
qed



lemma round_multiple:
  fixes u :: real
  assumes "0 < u" and "i \<le> j"
  shows "of_int (round_to_even (of_int m * (u * 2 ^ j) / (u * 2 ^ i))) * (u * 2 ^ i)
         = of_int m * (u * 2 ^ j)"
proof -
  have p: "(2::real) ^ j = 2 ^ (j - i) * 2 ^ i"
    using assms(2) by (simp flip: power_add)
  have "of_int m * (u * 2 ^ j) / (u * 2 ^ i) = of_int m * (2 ^ (j - i) * (u * 2 ^ i)) / (u * 2 ^ i)"
    by (simp only: p mult_ac)
  also have "\<dots> = of_int (m * 2 ^ (j - i))"
    using assms(1) by simp
  finally have "of_int m * (u * 2 ^ j) / (u * 2 ^ i) = of_int (m * 2 ^ (j - i))" .
  then have "of_int (round_to_even (of_int m * (u * 2 ^ j) / (u * 2 ^ i))) * (u * 2 ^ i)
             = of_int (m * 2 ^ (j - i)) * (u * 2 ^ i)"
    by (simp only: round_to_even_of_int)
  also have "\<dots> = of_int m * (u * 2 ^ j)"
    by (simp add: p)
  finally show ?thesis .
qed

text \<open>The numbers \<open>m * 2^j / 2^149\<close> with \<open>\<bar>m\<bar> < 2^24\<close> are binary32 values.\<close>

lemma binary32_round_value:
  assumes "j \<le> 254" and "\<bar>m\<bar> < 2 ^ 24"
  shows "binary32_round (of_int m * (2 ^ j / 2 ^ 149)) = of_int m * (2 ^ j / 2 ^ 149)"
proof -
  define u :: real where "u = 1 / 2 ^ 149"
  have u0: "0 < u" by (simp add: u_def)
  let ?v = "of_int m * (u * 2 ^ j)"
  have "\<bar>?v\<bar> = \<bar>of_int m\<bar> * (u * 2 ^ j)"
    using u0 by (simp add: abs_mult)
  also have "\<dots> < 2 ^ 24 * (u * 2 ^ j)"
  proof (rule mult_strict_right_mono)
    have "\<bar>of_int m :: real\<bar> = of_int \<bar>m\<bar>" by simp
    also have "\<dots> < of_int (2 ^ 24)" using assms(2) by (simp only: of_int_less_iff)
    finally show "\<bar>of_int m :: real\<bar> < 2 ^ 24" by simp
    show "0 < u * 2 ^ j" using u0 by simp
  qed
  finally have "\<exists>i\<le>j. ulp_from 254 u \<bar>?v\<bar> = u * 2 ^ i"
    using assms(1) u0 by (intro ulp_from_some) simp_all
  then obtain i where i: "i \<le> j" and u: "binary32_ulp ?v = u * 2 ^ i"
    unfolding binary32_ulp_def u_def by blast
  have "binary32_round ?v = ?v"
    unfolding binary32_round_def u by (rule round_multiple [OF u0 i])
  moreover have "?v = of_int m * (2 ^ j / 2 ^ 149)"
    by (simp add: u_def)
  ultimately show ?thesis by (simp only:)
qed

lemma binary32_round_of_int:
  assumes "\<bar>m\<bar> \<le> 2 ^ 24"
  shows "binary32_round (of_int m) = of_int m"
proof (cases "\<bar>m\<bar> < 2 ^ 24")
  case True
  from binary32_round_value [of 149 m] True show ?thesis by simp
next
  case False
  then have "m = 2 ^ 24 \<or> m = - (2 ^ 24)" using assms by auto
  then have m: "of_int m = (of_int (m div 2) :: real) * (2 ^ 150 / 2 ^ 149)" "\<bar>m div 2\<bar> < 2 ^ 24"
    by auto
  show ?thesis
    using binary32_round_value [of 150 "m div 2"] m by simp
qed

lemma binary32_round_0 [simp]: "binary32_round 0 = 0"
  using binary32_round_of_int [of 0] by simp

lemma binary32_round_1 [simp]: "binary32_round 1 = 1"
  using binary32_round_of_int [of 1] by simp












lemma rounded_sum_Suc:
  "rounded_sum hs xs (Suc k)
   = float_complex_add (rounded_sum hs xs k) (float_complex_scale (hs ! k) (xs ! k))"
  by (simp add: rounded_sum_def)
















section \<open>The vector kernels\<close>

lemma object_atD:
  assumes "object_at s q = Some (qn, buf)"
  obtains b where "load_struct s q = Inr (qn, Ptr b 0)" and "block_at s b = Some (Floats buf)"
  using assms
  by (auto simp: object_at_def split: sum.splits ptr.splits option.splits block.splits if_splits)

lemma get_n_load_struct: "load_struct s q = Inr (qn, p) \<Longrightarrow> get_n s q = Inr qn"
  by (simp add: get_n_def)

lemma get_h_load_struct: "load_struct s q = Inr (qn, p) \<Longrightarrow> get_h s q = Inr p"
  by (simp add: get_h_def)

lemma load_Floats:
  "block_at s b = Some (Floats fs) \<Longrightarrow> off + i < length fs \<Longrightarrow> load s (Ptr b off) i = Inr (fs ! (off + i))"
  by (simp add: load_def)

lemma read_floats_Floats:
  "block_at s b = Some (Floats fs) \<Longrightarrow> off + m \<le> length fs \<Longrightarrow>
   read_floats s (Ptr b off) m = Inr (take m (drop off fs))"
  by (simp add: read_floats_def)

lemma read_floats_floats_at:
  assumes "floats_at s p m = Some fs" and "i + k \<le> m" and "0 < k"
  shows "read_floats s (index_ptr p i) k = Inr (take k (drop i fs))"
proof -
  from assms have m: "m \<noteq> 0" by simp
  with assms(1) obtain a off xs where p: "p = Ptr a off" and b: "block_at s a = Some (Floats xs)"
    and le: "off + m \<le> length xs" and fs: "fs = take m (drop off xs)"
    by (auto simp: floats_at_def split: if_splits ptr.splits option.splits block.splits)
  have "take k (drop (off + i) xs) = take k (drop i fs)"
    using assms(2) by (simp add: fs drop_take add.commute)
  then show ?thesis
    using read_floats_Floats [OF b, of "off + i" k] le assms(2) by (simp add: p index_ptr_def)
qed

subsection \<open>Registers\<close>

lemma upt_16: "[0..<16] = [0, 1, 2, 3, 4, 5, 6, 7, 8, 9, 10, 11, 12, 13, 14, 15]"
  by (simp add: upt_rec)

lemma reduce_even: "mm512_mask_reduce_add_ps 0x5555 a = (\<Sum>m<8. a ! (2 * m))"
  by (simp add: mm512_mask_reduce_add_ps_def upt_16 lessThan_Suc eval_nat_numeral)

lemma reduce_odd: "mm512_mask_reduce_add_ps 0xAAAA a = (\<Sum>m<8. a ! (2 * m + 1))"
  by (simp add: mm512_mask_reduce_add_ps_def upt_16 lessThan_Suc eval_nat_numeral)

lemma length_mul_ps: "length a = 16 \<Longrightarrow> length b = 16 \<Longrightarrow> length (mm512_mul_ps a b) = 16"
  by (simp add: mm512_mul_ps_def)

lemma length_add_ps: "length a = 16 \<Longrightarrow> length b = 16 \<Longrightarrow> length (mm512_add_ps a b) = 16"
  by (simp add: mm512_add_ps_def)

lemma nth_mul_ps:
  "length a = 16 \<Longrightarrow> length b = 16 \<Longrightarrow> j < 16 \<Longrightarrow> mm512_mul_ps a b ! j = a ! j * b ! j"
  by (simp add: mm512_mul_ps_def)

lemma nth_add_ps:
  "length a = 16 \<Longrightarrow> length b = 16 \<Longrightarrow> j < 16 \<Longrightarrow> mm512_add_ps a b ! j = a ! j + b ! j"
  by (simp add: mm512_add_ps_def)

lemma reduce_add_ps:
  assumes "length a = 16" and "length b = 16"
  shows "mm512_mask_reduce_add_ps k (mm512_add_ps a b)
         = mm512_mask_reduce_add_ps k a + mm512_mask_reduce_add_ps k b"
proof -
  have "(\<Sum>j\<leftarrow>[0..<16]. if bit k j then mm512_add_ps a b ! j else 0)
        = (\<Sum>j\<leftarrow>[0..<16]. (if bit k j then a ! j else 0) + (if bit k j then b ! j else 0))"
    by (rule arg_cong [where f = sum_list], rule map_cong) (simp_all add: nth_add_ps assms)
  then show ?thesis
    by (simp only: mm512_mask_reduce_add_ps_def sum_list_addf)
qed

lemma reduce_setzero: "mm512_mask_reduce_add_ps k mm512_setzero_ps = 0"
  by (simp add: mm512_mask_reduce_add_ps_def mm512_setzero_ps_def upt_16)

lemma reduce_mul_even:
  assumes "length a = 16" and "length b = 16"
  shows "mm512_mask_reduce_add_ps 0x5555 (mm512_mul_ps a b) = (\<Sum>m<8. a ! (2 * m) * b ! (2 * m))"
  unfolding reduce_even by (rule sum.cong) (simp_all add: nth_mul_ps assms)

lemma reduce_mul_odd:
  assumes "length a = 16" and "length b = 16"
  shows "mm512_mask_reduce_add_ps 0xAAAA (mm512_mul_ps a b)
         = (\<Sum>m<8. a ! (2 * m + 1) * b ! (2 * m + 1))"
  unfolding reduce_odd by (rule sum.cong) (simp_all add: nth_mul_ps assms)

text \<open>A register that only ever has products added to it: its masked sum is the sum of theirs.\<close>

lemma reduce_foldl:
  assumes "length acc = 16"
    and "\<And>j a. j < K \<Longrightarrow> length a = 16 \<Longrightarrow>
           length (f j a) = 16 \<and> mm512_mask_reduce_add_ps k (f j a) = mm512_mask_reduce_add_ps k a + d j"
  shows "length (foldl (\<lambda>a j. f j a) acc [0..<K]) = 16
         \<and> mm512_mask_reduce_add_ps k (foldl (\<lambda>a j. f j a) acc [0..<K])
           = mm512_mask_reduce_add_ps k acc + (\<Sum>j<K. d j)"
  using assms(2)
proof (induction K)
  case 0
  then show ?case by (simp add: assms(1))
next
  case (Suc K)
  then have IH: "length (foldl (\<lambda>a j. f j a) acc [0..<K]) = 16"
    "mm512_mask_reduce_add_ps k (foldl (\<lambda>a j. f j a) acc [0..<K])
           = mm512_mask_reduce_add_ps k acc + (\<Sum>j<K. d j)"
    by simp_all
  from Suc.prems [of K, OF _ IH(1)] IH(2) show ?case by simp
qed

lemma sum_append_range:
  fixes f :: "nat \<Rightarrow> 'a::comm_monoid_add"
  shows "(\<Sum>m<a. f m) + (\<Sum>j<k. f (a + j)) = (\<Sum>m<a + k. f m)"
proof -
  have "(\<Sum>m<a + k. f m) = (\<Sum>m<a. f m) + (\<Sum>m = a..<a + k. f m)"
    using sum.atLeastLessThan_concat [of 0 a "a + k" f]
    by (simp add: lessThan_atLeast0)
  also have "(\<Sum>m = a..<a + k. f m) = (\<Sum>j<k. f (a + j))"
    using sum.shift_bounds_nat_ivl [of f 0 a k]
    by (simp add: lessThan_atLeast0 add.commute)
  finally show ?thesis by simp
qed

lemma sum_blocks:
  fixes f :: "nat \<Rightarrow> 'a::comm_monoid_add"
  shows "(\<Sum>j<K. \<Sum>m<B. f (B * j + m)) = (\<Sum>m<B * K. f m)"
proof (induction K)
  case 0
  show ?case by simp
next
  case (Suc K)
  have "B * Suc K = B * K + B" by simp
  then have "(\<Sum>m<B * Suc K. f m) = (\<Sum>m<B * K. f m) + (\<Sum>j<B. f (B * K + j))"
    by (simp only: sum_append_range)
  with Suc.IH show ?case by simp
qed


subsection \<open>Kernel steps\<close>

lemma unat_double:
  fixes qn :: u32
  assumes "unat qn < 2 ^ 31"
  shows "unat (2 * qn) = 2 * unat qn"
proof -
  have "unat (2::u32) * unat qn < 2 ^ LENGTH(32)" using assms by simp
  then show ?thesis by (simp add: unat_mult_lem [THEN iffD1])
qed

lemma unat_of_nat_times:
  fixes t :: u32
  assumes "j * c \<le> unat t"
  shows "unat (of_nat j * of_nat c :: u32) = j * c"
  using le_unat_uoi [OF assms] by simp

lemma unat_plus_le:
  fixes i n :: u32
  assumes "unat i + c \<le> unat n"
  shows "unat (i + of_nat c) = unat i + c"
proof -
  have n: "unat n < 2 ^ 32" using unsigned_less [of n, where 'a = nat] by simp
  then have c: "unat (of_nat c :: u32) = c"
    using assms by (intro le_unat_uoi [of _ n]) simp
  have "unat i + unat (of_nat c :: u32) < 2 ^ LENGTH(32)" using assms n c by simp
  then show ?thesis using c by (simp add: unat_add_lem [THEN iffD1])
qed

lemma vector_mac_ok:
  assumes "object_at s q = Some (qn, buf)" and "floats_at s x N = Some xf"
    and "N \<le> length buf" and "unat i + 16 \<le> N"
  shows "vector_mac s q x i acc
         = Inr (mm512_add_ps acc (mm512_mul_ps (take 16 (drop (unat i) xf)) (take 16 (drop (unat i) buf))))"
proof -
  from assms(1) obtain b where ls: "load_struct s q = Inr (qn, Ptr b 0)"
    and b: "block_at s b = Some (Floats buf)"
    by (rule object_atD)
  have 1: "mm512_loadu_ps s (index_ptr x (unat i)) = Inr (take 16 (drop (unat i) xf))"
    unfolding mm512_loadu_ps_def using assms(2,4) by (intro read_floats_floats_at) simp_all
  have 2: "mm512_load_ps s (index_ptr (Ptr b 0) (unat i)) = Inr (take 16 (drop (unat i) buf))"
    unfolding mm512_load_ps_def index_ptr_def
    using read_floats_Floats [OF b, of "unat i" 16] assms(3,4) by simp
  show ?thesis
    by (simp add: vector_mac_def 1 2 get_h_load_struct [OF ls])
qed

lemma get_coef_ok:
  assumes "object_at s q = Some (qn, buf)" and "i < length buf"
  shows "get_coef s q i = Inr (buf ! i)"
proof -
  from assms(1) obtain b where ls: "load_struct s q = Inr (qn, Ptr b 0)"
    and b: "block_at s b = Some (Floats buf)"
    by (rule object_atD)
  show ?thesis
    using load_Floats [OF b, of 0 i] assms(2) by (simp add: get_coef_def get_h_load_struct [OF ls])
qed

lemma cleanup_ok:
  fixes i n :: u32
  assumes "object_at s q = Some (qn, buf)" and "floats_at s x (unat n) = Some xf"
    and "unat n \<le> length buf" and "unat i = 2 * c" and "2 * c + 2 \<le> unat n"
  shows "cleanup s q x i w = Inr (fst w + re_term xf buf c, snd w + im_term xf buf c)"
proof -
  have u: "unat (i + 1) = 2 * c + 1"
    using unat_plus_le [of i 1 n] assms(4,5) by simp
  have x0: "load s x (2 * c) = Inr (xf ! (2 * c))"
    and x1: "load s x (Suc (2 * c)) = Inr (xf ! (Suc (2 * c)))"
    using assms(2,5) by (auto intro!: floats_at_load)
  have h0: "get_coef s q (2 * c) = Inr (buf ! (2 * c))"
    and h1: "get_coef s q (Suc (2 * c)) = Inr (buf ! (Suc (2 * c)))"
    using assms(3,5) by (auto intro!: get_coef_ok [OF assms(1)])
  show ?thesis
    by (simp add: cleanup_def assms(4) u x0 x1 h0 h1 re_term_def im_term_def)
qed

lemma foldl_pair_sum:
  fixes w :: "real \<times> real"
  shows "foldl (\<lambda>w j. (fst w + a j, snd w + b j)) w [0..<k] = (fst w + (\<Sum>j<k. a j), snd w + (\<Sum>j<k. b j))"
  by (induction k) (simp_all add: add.assoc)

lemma cleanup_loop:
  fixes i n :: u32
  assumes "object_at s q = Some (qn, buf)" and "floats_at s x (unat n) = Some xf"
    and "unat n \<le> length buf" and "unat i = 2 * c" and "unat n = 2 * (c + k)"
  shows "for_loop n 2 (cleanup s q x) i w
         = Some (Inr (n, (fst w + (\<Sum>j<k. re_term xf buf (c + j)), snd w + (\<Sum>j<k. im_term xf buf (c + j)))))"
proof -
  have "for_loop n 2 (cleanup s q x) i w
        = Some (Inr (n, foldl (\<lambda>w j. (fst w + re_term xf buf (c + j), snd w + im_term xf buf (c + j))) w [0..<k]))"
  proof (rule for_loop_exact)
    show "unat i + k * unat (2::u32) = unat n" using assms(4,5) by simp
    show "0 < unat (2::u32)" by simp
  next
    fix j w' assume j: "j < k"
    have "unat (i + of_nat (j * 2)) = unat i + j * 2"
      using assms(4,5) j by (intro unat_plus_le [of _ _ n]) simp
    then have "unat (i + of_nat j * 2) = 2 * (c + j)"
      using assms(4) by simp
    then show "cleanup s q x (i + of_nat j * 2) w'
               = Inr (fst w' + re_term xf buf (c + j), snd w' + im_term xf buf (c + j))"
      using assms(5) j by (intro cleanup_ok [OF assms(1,2,3)]) simp_all
  qed
  then show ?thesis by (simp only: foldl_pair_sum)
qed

lemma reduce_block_even:
  assumes "2 * c + 16 \<le> length xf" and "2 * c + 16 \<le> length buf"
  shows "mm512_mask_reduce_add_ps 0x5555
           (mm512_mul_ps (take 16 (drop (2 * c) xf)) (take 16 (drop (2 * c) buf)))
         = (\<Sum>m<8. re_term xf buf (c + m))"
proof -
  have "mm512_mask_reduce_add_ps 0x5555
           (mm512_mul_ps (take 16 (drop (2 * c) xf)) (take 16 (drop (2 * c) buf)))
        = (\<Sum>m<8. take 16 (drop (2 * c) xf) ! (2 * m) * take 16 (drop (2 * c) buf) ! (2 * m))"
    using assms by (intro reduce_mul_even) simp_all
  also have "\<dots> = (\<Sum>m<8. re_term xf buf (c + m))"
    using assms by (intro sum.cong) (simp_all add: re_term_def algebra_simps)
  finally show ?thesis .
qed

lemma reduce_block_odd:
  assumes "2 * c + 16 \<le> length xf" and "2 * c + 16 \<le> length buf"
  shows "mm512_mask_reduce_add_ps 0xAAAA
           (mm512_mul_ps (take 16 (drop (2 * c) xf)) (take 16 (drop (2 * c) buf)))
         = (\<Sum>m<8. im_term xf buf (c + m))"
proof -
  have "mm512_mask_reduce_add_ps 0xAAAA
           (mm512_mul_ps (take 16 (drop (2 * c) xf)) (take 16 (drop (2 * c) buf)))
        = (\<Sum>m<8. take 16 (drop (2 * c) xf) ! (2 * m + 1) * take 16 (drop (2 * c) buf) ! (2 * m + 1))"
    using assms by (intro reduce_mul_odd) simp_all
  also have "\<dots> = (\<Sum>m<8. im_term xf buf (c + m))"
    using assms by (intro sum.cong) (simp_all add: im_term_def algebra_simps)
  finally show ?thesis .
qed


subsection \<open>The narrow kernel\<close>

lemma length_lanes: "d + 16 \<le> length fs \<Longrightarrow> length (take 16 (drop d fs)) = 16"
  by simp

lemma narrow_vector_loop:
  fixes t :: u32
  assumes "object_at s q = Some (qn, buf)" and "floats_at s x N = Some xf"
    and "N \<le> length buf" and "unat t = 16 * K" and "16 * K \<le> N"
  shows "\<exists>acc. for_loop t 16 (vector_mac s q x) 0 mm512_setzero_ps = Some (Inr (t, acc))
           \<and> mm512_mask_reduce_add_ps 0x5555 acc = (\<Sum>m<8 * K. re_term xf buf m)
           \<and> mm512_mask_reduce_add_ps 0xAAAA acc = (\<Sum>m<8 * K. im_term xf buf m)"
proof -
  let ?P = "\<lambda>j. mm512_mul_ps (take 16 (drop (2 * (8 * j)) xf)) (take 16 (drop (2 * (8 * j)) buf))"
  let ?f = "\<lambda>j acc. mm512_add_ps acc (?P j)"
  let ?acc = "foldl (\<lambda>a j. ?f j a) mm512_setzero_ps [0..<K]"
  have lx: "length xf = N" using assms(2) by (rule floats_at_length)
  have loop: "for_loop t 16 (vector_mac s q x) 0 mm512_setzero_ps = Some (Inr (t, ?acc))"
  proof (rule for_loop_exact)
    show "unat (0::u32) + K * unat (16::u32) = unat t" using assms(4) by simp
    show "0 < unat (16::u32)" by simp
  next
    fix j a assume j: "j < K"
    have "unat (of_nat j * of_nat 16 :: u32) = j * 16"
      using assms(4) j by (intro unat_of_nat_times [of _ _ t]) simp
    then have u: "unat (0 + of_nat j * 16 :: u32) = 2 * (8 * j)" by simp
    show "vector_mac s q x (0 + of_nat j * 16) a = Inr (?f j a)"
      unfolding u [symmetric]
      using assms(5) j u by (intro vector_mac_ok [OF assms(1,2,3)]) simp
  qed
  have len: "length (?P j) = 16" if "j < K" for j
    using that assms(3,5) lx by (intro length_mul_ps length_lanes) simp_all
  have z: "length mm512_setzero_ps = 16" by (simp add: mm512_setzero_ps_def)
  have bnd: "2 * (8 * j) + 16 \<le> length xf" "2 * (8 * j) + 16 \<le> length buf" if "j < K" for j
    using that assms(3,5) lx by simp_all
  have ev: "length (?f j a) = 16 \<and> mm512_mask_reduce_add_ps 0x5555 (?f j a)
              = mm512_mask_reduce_add_ps 0x5555 a + (\<Sum>m<8. re_term xf buf (8 * j + m))"
    if "j < K" "length a = 16" for j a
    using length_add_ps [OF that(2) len [OF that(1)]] reduce_add_ps [OF that(2) len [OF that(1)], of "0x5555"]
      reduce_block_even [OF bnd [OF that(1)]]
    by simp
  have od: "length (?f j a) = 16 \<and> mm512_mask_reduce_add_ps 0xAAAA (?f j a)
              = mm512_mask_reduce_add_ps 0xAAAA a + (\<Sum>m<8. im_term xf buf (8 * j + m))"
    if "j < K" "length a = 16" for j a
    using length_add_ps [OF that(2) len [OF that(1)]] reduce_add_ps [OF that(2) len [OF that(1)], of "0xAAAA"]
      reduce_block_odd [OF bnd [OF that(1)]]
    by simp
  have "mm512_mask_reduce_add_ps 0x5555 ?acc = (\<Sum>m<8 * K. re_term xf buf m)"
    using reduce_foldl [where f = ?f and k = "0x5555", OF z ev]
    by (simp add: reduce_setzero sum_blocks)
  moreover have "mm512_mask_reduce_add_ps 0xAAAA ?acc = (\<Sum>m<8 * K. im_term xf buf m)"
    using reduce_foldl [where f = ?f and k = "0xAAAA", OF z od]
    by (simp add: reduce_setzero sum_blocks)
  ultimately show ?thesis using loop by blast
qed

lemma narrow_value:
  assumes "object_at s q = Some (qn, buf)" and "length buf = 2 * unat qn"
    and "unat qn < 2 ^ 31" and "floats_at s x (2 * unat qn) = Some xf"
  shows "dotprod_crcf_execute_avx512f s q x y
         = Some (seq (store_complex s y
                        (Complex (\<Sum>m<unat qn. re_term xf buf m) (\<Sum>m<unat qn. im_term xf buf m)))
                     (\<lambda>s'. Inr (s', LIQUID_OK)))"
proof -
  let ?n = "2 * qn"
  let ?t = "push_bit 4 (drop_bit 4 ?n) :: u32"
  define K where "K = unat ?n div 16"
  from assms(1) obtain b where ls: "load_struct s q = Inr (qn, Ptr b 0)"
    by (rule object_atD)
  have n: "unat ?n = 2 * unat qn" using assms(3) by (rule unat_double)
  have t: "unat ?t = 16 * K"
    using unat_push_drop [of 4 4 ?n] by (simp add: K_def)
  have tn: "16 * K \<le> unat ?n" by (simp add: K_def)
  have x: "floats_at s x (unat ?n) = Some xf" using assms(4) n by simp
  have lb: "unat ?n \<le> length buf" using assms(2) n by simp
  obtain acc where loop: "for_loop ?t 16 (vector_mac s q x) 0 mm512_setzero_ps = Some (Inr (?t, acc))"
    and ev: "mm512_mask_reduce_add_ps 0x5555 acc = (\<Sum>m<8 * K. re_term xf buf m)"
    and od: "mm512_mask_reduce_add_ps 0xAAAA acc = (\<Sum>m<8 * K. im_term xf buf m)"
    using narrow_vector_loop [OF assms(1) x lb t tn] by blast
  define k where "k = unat qn - 8 * K"
  have split: "unat qn = 8 * K + k" using tn n by (simp add: k_def)
  have rest: "for_loop ?n 2 (cleanup s q x) ?t w
      = Some (Inr (?n, (fst w + (\<Sum>j<k. re_term xf buf (8 * K + j)),
                        snd w + (\<Sum>j<k. im_term xf buf (8 * K + j)))))" for w
    using t n split by (intro cleanup_loop [OF assms(1) x lb]) simp_all
  have "dotprod_crcf_execute_avx512f s q x y
        = Some (seq (store_complex s y
              (complex_of_real ((\<Sum>m<8 * K. re_term xf buf m) + (\<Sum>j<k. re_term xf buf (8 * K + j)))
               + \<i> * complex_of_real ((\<Sum>m<8 * K. im_term xf buf m) + (\<Sum>j<k. im_term xf buf (8 * K + j)))))
            (\<lambda>s'. Inr (s', LIQUID_OK)))"
    by (simp add: dotprod_crcf_execute_avx512f_def get_n_load_struct [OF ls] Let_def loop rest ev od)
  then show ?thesis
    by (simp only: sum_append_range split [symmetric] Complex_eq)
qed

subsection \<open>The wide kernel\<close>

lemma unat_times4:
  fixes i n :: u32
  assumes "4 * unat i \<le> unat n"
  shows "unat (4 * i) = 4 * unat i"
proof -
  have "unat n < 2 ^ 32" using unsigned_less [of n, where 'a = nat] by simp
  then have "unat (4::u32) * unat i < 2 ^ LENGTH(32)" using assms by simp
  then show ?thesis by (simp add: unat_mult_lem [THEN iffD1])
qed

lemma vector_mac4_ok:
  fixes i n :: u32
  assumes "object_at s q = Some (qn, buf)" and "floats_at s x (unat n) = Some xf"
    and "unat n \<le> length buf" and "unat i = 16 * j" and "64 * j + 64 \<le> unat n"
  shows "vector_mac4 s q x i acc
         = Inr (mm512_add_ps (mm512_add_ps (mm512_add_ps (mm512_add_ps acc
             (mm512_mul_ps (take 16 (drop (2 * (32 * j)) xf)) (take 16 (drop (2 * (32 * j)) buf))))
             (mm512_mul_ps (take 16 (drop (2 * (32 * j + 8)) xf)) (take 16 (drop (2 * (32 * j + 8)) buf))))
             (mm512_mul_ps (take 16 (drop (2 * (32 * j + 16)) xf)) (take 16 (drop (2 * (32 * j + 16)) buf))))
             (mm512_mul_ps (take 16 (drop (2 * (32 * j + 24)) xf)) (take 16 (drop (2 * (32 * j + 24)) buf))))"
proof -
  from assms(1) obtain b where ls: "load_struct s q = Inr (qn, Ptr b 0)"
    and b: "block_at s b = Some (Floats buf)"
    by (rule object_atD)
  have u: "unat (4 * i) = 64 * j"
    using unat_times4 [of i n] assms(4,5) by simp
  have u0: "unat (4 * i + 0) = 2 * (32 * j)" using u by simp
  have u1: "unat (4 * i + 16) = 2 * (32 * j + 8)"
    using unat_plus_le [of "4 * i" 16 n] u assms(5) by simp
  have u2: "unat (4 * i + 32) = 2 * (32 * j + 16)"
    using unat_plus_le [of "4 * i" 32 n] u assms(5) by simp
  have u3: "unat (4 * i + 48) = 2 * (32 * j + 24)"
    using unat_plus_le [of "4 * i" 48 n] u assms(5) by simp
  have x: "mm512_loadu_ps s (index_ptr x (2 * c)) = Inr (take 16 (drop (2 * c) xf))"
    if "2 * c + 16 \<le> unat n" for c
    unfolding mm512_loadu_ps_def using assms(2) that by (intro read_floats_floats_at) simp_all
  have h: "mm512_load_ps s (index_ptr (Ptr b 0) (2 * c)) = Inr (take 16 (drop (2 * c) buf))"
    if "2 * c + 16 \<le> unat n" for c
    unfolding mm512_load_ps_def index_ptr_def
    using read_floats_Floats [OF b, of "2 * c" 16] assms(3) that by simp
  have bnd: "2 * (32 * j) + 16 \<le> unat n" "2 * (32 * j + 8) + 16 \<le> unat n"
    "2 * (32 * j + 16) + 16 \<le> unat n" "2 * (32 * j + 24) + 16 \<le> unat n"
    using assms(5) by simp_all
  show ?thesis
    unfolding vector_mac4_def u0 u1 u2 u3 x [OF bnd(1)] x [OF bnd(2)] x [OF bnd(3)] x [OF bnd(4)]
      seq_Inr get_h_load_struct [OF ls] h [OF bnd(1)] h [OF bnd(2)] h [OF bnd(3)] h [OF bnd(4)] Let_def
    by (rule refl)
qed

lemma sum_four_blocks:
  fixes g :: "nat \<Rightarrow> real"
  shows "(\<Sum>m<8. g (c + m)) + (\<Sum>m<8. g (c + 8 + m)) + (\<Sum>m<8. g (c + 16 + m)) + (\<Sum>m<8. g (c + 24 + m))
         = (\<Sum>m<32. g (c + m))"
  by (simp add: lessThan_Suc eval_nat_numeral add.assoc)

lemma wide_vector_loop:
  fixes r n :: u32
  assumes "object_at s q = Some (qn, buf)" and "floats_at s x (unat n) = Some xf"
    and "unat n \<le> length buf" and "unat r = 16 * K" and "64 * K \<le> unat n"
  shows "\<exists>acc. for_loop r 16 (vector_mac4 s q x) 0 mm512_setzero_ps = Some (Inr (r, acc))
           \<and> mm512_mask_reduce_add_ps 0x5555 acc = (\<Sum>m<32 * K. re_term xf buf m)
           \<and> mm512_mask_reduce_add_ps 0xAAAA acc = (\<Sum>m<32 * K. im_term xf buf m)"
proof -
  let ?P = "\<lambda>c. mm512_mul_ps (take 16 (drop (2 * c) xf)) (take 16 (drop (2 * c) buf))"
  let ?f = "\<lambda>j acc. mm512_add_ps (mm512_add_ps (mm512_add_ps (mm512_add_ps acc
              (?P (32 * j))) (?P (32 * j + 8))) (?P (32 * j + 16))) (?P (32 * j + 24))"
  let ?acc = "foldl (\<lambda>a j. ?f j a) mm512_setzero_ps [0..<K]"
  have lx: "length xf = unat n" using assms(2) by (rule floats_at_length)
  have loop: "for_loop r 16 (vector_mac4 s q x) 0 mm512_setzero_ps = Some (Inr (r, ?acc))"
  proof (rule for_loop_exact)
    show "unat (0::u32) + K * unat (16::u32) = unat r" using assms(4) by simp
    show "0 < unat (16::u32)" by simp
  next
    fix j a assume j: "j < K"
    have "unat (of_nat j * of_nat 16 :: u32) = j * 16"
      using assms(4) j by (intro unat_of_nat_times [of _ _ r]) simp
    then have u: "unat (0 + of_nat j * 16 :: u32) = 16 * j" by simp
    have "64 * j + 64 \<le> unat n" using j assms(5) by simp
    then show "vector_mac4 s q x (0 + of_nat j * 16) a = Inr (?f j a)"
      by (rule vector_mac4_ok [OF assms(1,2,3) u])
  qed
  have bnd: "2 * (32 * j + c) + 16 \<le> length xf" "2 * (32 * j + c) + 16 \<le> length buf"
    if "j < K" "c \<le> 24" for j c
    using that assms(3,5) lx by simp_all
  have len: "length (?P (32 * j + c)) = 16" if "j < K" "c \<le> 24" for j c
    using bnd [OF that] by (intro length_mul_ps length_lanes)
  have z: "length mm512_setzero_ps = 16" by (simp add: mm512_setzero_ps_def)
  have stepk: "length (?f j a) = 16 \<and> mm512_mask_reduce_add_ps k (?f j a)
              = mm512_mask_reduce_add_ps k a + mm512_mask_reduce_add_ps k (?P (32 * j))
                + mm512_mask_reduce_add_ps k (?P (32 * j + 8))
                + mm512_mask_reduce_add_ps k (?P (32 * j + 16))
                + mm512_mask_reduce_add_ps k (?P (32 * j + 24))"
    if "j < K" "length a = 16" for j a k
  proof -
    have l0: "length (?P (32 * j)) = 16" using len [OF that(1), of 0] by simp
    have l1: "length (?P (32 * j + 8)) = 16" "length (?P (32 * j + 16)) = 16"
      "length (?P (32 * j + 24)) = 16"
      using that(1) by (simp_all only: len)
    note la = length_add_ps [OF that(2) l0]
    note lb = length_add_ps [OF la l1(1)]
    note lc = length_add_ps [OF lb l1(2)]
    show ?thesis
      by (simp only: length_add_ps [OF lc l1(3)] reduce_add_ps [OF lc l1(3)]
          reduce_add_ps [OF lb l1(2)] reduce_add_ps [OF la l1(1)] reduce_add_ps [OF that(2) l0]
          simp_thms)
  qed
  have ev: "length (?f j a) = 16 \<and> mm512_mask_reduce_add_ps 0x5555 (?f j a)
              = mm512_mask_reduce_add_ps 0x5555 a + (\<Sum>m<32. re_term xf buf (32 * j + m))"
    if "j < K" "length a = 16" for j a
  proof -
    have "mm512_mask_reduce_add_ps 0x5555 (?P (32 * j + c)) = (\<Sum>m<8. re_term xf buf (32 * j + c + m))"
      if "c \<le> 24" for c
      using bnd [OF \<open>j < K\<close> that] by (rule reduce_block_even)
    from this [of 0] this [of 8] this [of 16] this [of 24] stepk [OF that, of "0x5555"]
      sum_four_blocks [of "re_term xf buf" "32 * j"]
    show ?thesis by (simp add: add.assoc)
  qed
  have od: "length (?f j a) = 16 \<and> mm512_mask_reduce_add_ps 0xAAAA (?f j a)
              = mm512_mask_reduce_add_ps 0xAAAA a + (\<Sum>m<32. im_term xf buf (32 * j + m))"
    if "j < K" "length a = 16" for j a
  proof -
    have "mm512_mask_reduce_add_ps 0xAAAA (?P (32 * j + c)) = (\<Sum>m<8. im_term xf buf (32 * j + c + m))"
      if "c \<le> 24" for c
      using bnd [OF \<open>j < K\<close> that] by (rule reduce_block_odd)
    from this [of 0] this [of 8] this [of 16] this [of 24] stepk [OF that, of "0xAAAA"]
      sum_four_blocks [of "im_term xf buf" "32 * j"]
    show ?thesis by (simp add: add.assoc)
  qed
  have "mm512_mask_reduce_add_ps 0x5555 ?acc = (\<Sum>m<32 * K. re_term xf buf m)"
    using reduce_foldl [where f = ?f and k = "0x5555", OF z ev]
    by (simp add: reduce_setzero sum_blocks)
  moreover have "mm512_mask_reduce_add_ps 0xAAAA ?acc = (\<Sum>m<32 * K. im_term xf buf m)"
    using reduce_foldl [where f = ?f and k = "0xAAAA", OF z od]
    by (simp add: reduce_setzero sum_blocks)
  ultimately show ?thesis using loop by blast
qed


lemma wide_value:
  assumes "object_at s q = Some (qn, buf)" and "length buf = 2 * unat qn"
    and "unat qn < 2 ^ 31" and "floats_at s x (2 * unat qn) = Some xf"
  shows "dotprod_crcf_execute_avx512f4 s q x y
         = Some (seq (store_complex s y
                        (Complex (\<Sum>m<unat qn. re_term xf buf m) (\<Sum>m<unat qn. im_term xf buf m)))
                     (\<lambda>s'. Inr (s', LIQUID_OK)))"
proof -
  let ?n = "2 * qn"
  let ?r = "push_bit 4 (drop_bit 6 ?n) :: u32"
  define K where "K = unat ?n div 64"
  from assms(1) obtain b where ls: "load_struct s q = Inr (qn, Ptr b 0)"
    by (rule object_atD)
  have n: "unat ?n = 2 * unat qn" using assms(3) by (rule unat_double)
  have r: "unat ?r = 16 * K"
    using unat_push_drop [of 4 6 ?n] by (simp add: K_def)
  have rn: "64 * K \<le> unat ?n" by (simp add: K_def)
  have r4: "unat (4 * ?r) = 2 * (32 * K)"
    using unat_times4 [of ?r ?n] r rn by simp
  have x: "floats_at s x (unat ?n) = Some xf" using assms(4) n by simp
  have lb: "unat ?n \<le> length buf" using assms(2) n by simp
  obtain acc where loop: "for_loop ?r 16 (vector_mac4 s q x) 0 mm512_setzero_ps = Some (Inr (?r, acc))"
    and ev: "mm512_mask_reduce_add_ps 0x5555 acc = (\<Sum>m<32 * K. re_term xf buf m)"
    and od: "mm512_mask_reduce_add_ps 0xAAAA acc = (\<Sum>m<32 * K. im_term xf buf m)"
    using wide_vector_loop [OF assms(1) x lb r rn] by blast
  define k where "k = unat qn - 32 * K"
  have split: "unat qn = 32 * K + k" using rn n by (simp add: k_def)
  have rest: "for_loop ?n 2 (cleanup s q x) (4 * ?r) w
      = Some (Inr (?n, (fst w + (\<Sum>j<k. re_term xf buf (32 * K + j)),
                        snd w + (\<Sum>j<k. im_term xf buf (32 * K + j)))))" for w
    using n split by (intro cleanup_loop [OF assms(1) x lb r4]) simp
  have "dotprod_crcf_execute_avx512f4 s q x y
        = Some (seq (store_complex s y
              (complex_of_real ((\<Sum>m<32 * K. re_term xf buf m) + (\<Sum>j<k. re_term xf buf (32 * K + j)))
               + complex_of_real ((\<Sum>m<32 * K. im_term xf buf m) + (\<Sum>j<k. im_term xf buf (32 * K + j))) * \<i>))
            (\<lambda>s'. Inr (s', LIQUID_OK)))"
    by (simp add: dotprod_crcf_execute_avx512f4_def get_n_load_struct [OF ls] Let_def loop rest ev od)
  then show ?thesis
    by (simp only: sum_append_range split [symmetric] Complex_eq mult.commute [of _ \<i>])
qed

lemma execute_value:
  assumes "object_at s q = Some (qn, buf)" and "length buf = 2 * unat qn"
    and "unat qn < 2 ^ 31" and "floats_at s x (2 * unat qn) = Some xf"
  shows "dotprod_crcf_execute s q x y
         = Some (seq (store_complex s y
                        (Complex (\<Sum>m<unat qn. re_term xf buf m) (\<Sum>m<unat qn. im_term xf buf m)))
                     (\<lambda>s'. Inr (s', LIQUID_OK)))"
proof -
  from assms(1) obtain b where ls: "load_struct s q = Inr (qn, Ptr b 0)"
    by (rule object_atD)
  show ?thesis
    by (simp add: dotprod_crcf_execute_def get_n_load_struct [OF ls] narrow_value [OF assms]
        wide_value [OF assms])
qed

subsection \<open>The duplicated layout\<close>

lemma length_duplicate: "length (duplicate c) = 2 * length c"
  by (induction c) (simp_all add: duplicate_def)

lemma nth_duplicate:
  "k < length c \<Longrightarrow> duplicate c ! (2 * k) = c ! k \<and> duplicate c ! (2 * k + 1) = c ! k"
proof (induction c arbitrary: k)
  case Nil
  then show ?case by simp
next
  case (Cons v c)
  have d: "duplicate (v # c) = v # v # duplicate c" by (simp add: duplicate_def)
  show ?case
  proof (cases k)
    case 0
    then show ?thesis by (simp add: d)
  next
    case (Suc k')
    with Cons.prems Cons.IH [of k'] show ?thesis by (simp add: d)
  qed
qed

lemma interleaved_nth:
  "m < length fs div 2 \<Longrightarrow> interleaved fs ! m = Complex (fs ! (2 * m)) (fs ! (2 * m + 1))"
  by (simp add: interleaved_def)

text \<open>On the duplicated layout the two sums of the kernels are the parts of the dot product.\<close>

lemma dot_product_parts:
  assumes "length xf = 2 * length c"
  shows "Complex (\<Sum>m<length c. re_term xf (duplicate c) m) (\<Sum>m<length c. im_term xf (duplicate c) m)
         = dot_product c (interleaved xf)"
proof -
  have t: "complex_of_real (c ! m) * interleaved xf ! m
           = Complex (re_term xf (duplicate c) m) (im_term xf (duplicate c) m)" if "m < length c" for m
    using that assms nth_duplicate [OF that]
    by (simp add: interleaved_nth re_term_def im_term_def complex_eq_iff mult.commute)
  have "dot_product c (interleaved xf)
        = (\<Sum>m<length c. Complex (re_term xf (duplicate c) m) (im_term xf (duplicate c) m))"
    unfolding dot_product_def by (rule sum.cong) (simp_all add: t)
  also have "\<dots> = Complex (\<Sum>m<length c. re_term xf (duplicate c) m) (\<Sum>m<length c. im_term xf (duplicate c) m)"
    by (simp add: complex_eq_iff)
  finally show ?thesis by simp
qed

section \<open>Execution of an object\<close>

lemma complexes_atD:
  assumes "complexes_at s x m = Some xs"
  obtains xf where "floats_at s x (2 * m) = Some xf" and "xs = interleaved xf" and "length xf = 2 * m"
  using assms by (auto simp: complexes_at_def dest: floats_at_length)

lemma object_value:
  assumes "dotprod_object s q n c" and "complexes_at s x (unat n) = Some xs"
  shows "dotprod_crcf_execute_avx512f s q x y
           = Some (seq (store_complex s y (dot_product c xs)) (\<lambda>s'. Inr (s', LIQUID_OK)))"
    and "dotprod_crcf_execute_avx512f4 s q x y
           = Some (seq (store_complex s y (dot_product c xs)) (\<lambda>s'. Inr (s', LIQUID_OK)))"
    and "dotprod_crcf_execute s q x y
           = Some (seq (store_complex s y (dot_product c xs)) (\<lambda>s'. Inr (s', LIQUID_OK)))"
proof -
  from assms(1) have o: "object_at s q = Some (n, duplicate c)" and len: "length c = unat n"
    and b: "unat n < 2 ^ 31"
    by (simp_all add: dotprod_object_def)
  from assms(2) obtain xf where xf: "floats_at s x (2 * unat n) = Some xf"
    and xs: "xs = interleaved xf" and lx: "length xf = 2 * unat n"
    by (rule complexes_atD)
  have lb: "length (duplicate c) = 2 * unat n" by (simp add: length_duplicate len)
  have v: "Complex (\<Sum>m<unat n. re_term xf (duplicate c) m) (\<Sum>m<unat n. im_term xf (duplicate c) m)
           = dot_product c xs"
    using dot_product_parts [of xf c] lx len by (simp add: xs)
  show "dotprod_crcf_execute_avx512f s q x y
           = Some (seq (store_complex s y (dot_product c xs)) (\<lambda>s'. Inr (s', LIQUID_OK)))"
    using narrow_value [OF o lb b xf, of y] by (simp only: v)
  show "dotprod_crcf_execute_avx512f4 s q x y
           = Some (seq (store_complex s y (dot_product c xs)) (\<lambda>s'. Inr (s', LIQUID_OK)))"
    using wide_value [OF o lb b xf, of y] by (simp only: v)
  show "dotprod_crcf_execute s q x y
           = Some (seq (store_complex s y (dot_product c xs)) (\<lambda>s'. Inr (s', LIQUID_OK)))"
    using execute_value [OF o lb b xf, of y] by (simp only: v)
qed

lemma heap2_object: "dotprod_object heap2 (Ptr 3 0) 3 [1, 2, 3]"
  by (simp add: dotprod_object_def object_at_def load_struct_def block_at_def heap2_def duplicate_def)

lemma heap2_coefficients: "floats_at heap2 (Ptr 0 0) (unat (3::u32)) = Some [1, 2, 3]"
  by (simp add: floats_at_def heap2_def block_at_def)

lemma heap2_samples:
  "complexes_at heap2 (Ptr 1 0) (unat (3::u32)) = Some [Complex 1 0, Complex 0 1, Complex 1 1]"
  by (simp add: complexes_at_def floats_at_def heap2_def block_at_def interleaved_def upt_conv_Cons)

lemma heap2_output: "floats_at heap2 (Ptr 2 0) 2 \<noteq> None"
  by (simp add: floats_at_def heap2_def block_at_def)

text \<open>
  C1. For every object with \<open>n\<close> coefficients and every array \<open>x\<close> of \<open>n\<close> complex
  samples, the narrow kernel \<^verbatim>\<open>dotprod_crcf_execute_avx512f\<close> and the wide kernel
  \<^verbatim>\<open>dotprod_crcf_execute_avx512f4\<close> have the outcome of the scalar reference
  \<^verbatim>\<open>dotprod_crcf_run\<close> on the coefficients themselves, not duplicated, and \<open>x\<close>: the
  dot product stored into the output, over exact arithmetic.
\<close>

theorem kernels_agree_with_run:
  assumes "dotprod_object s q n c" and "floats_at s h (unat n) = Some c"
    and "complexes_at s x (unat n) = Some xs"
  shows "dotprod_crcf_execute_avx512f s q x y = dotprod_crcf_run s h x n y
       \<and> dotprod_crcf_execute_avx512f4 s q x y = dotprod_crcf_run s h x n y
       \<and> (floats_at s y 2 \<noteq> None \<longrightarrow>
            (\<exists>s'. dotprod_crcf_run s h x n y = Some (Inr (s', LIQUID_OK))
                \<and> complexes_at s' y 1 = Some [dot_product c xs]))"
proof (intro conjI impI)
  show "dotprod_crcf_execute_avx512f s q x y = dotprod_crcf_run s h x n y"
    by (simp only: object_value(1) [OF assms(1,3)] run_value [OF assms(2,3)])
  show "dotprod_crcf_execute_avx512f4 s q x y = dotprod_crcf_run s h x n y"
    by (simp only: object_value(2) [OF assms(1,3)] run_value [OF assms(2,3)])
next
  assume y: "floats_at s y 2 \<noteq> None"
  obtain s' where "store_complex s y (dot_product c xs) = Inr s'"
    "complexes_at s' y 1 = Some [dot_product c xs]"
    using store_complex_ok [OF y] by blast
  then show "\<exists>s'. dotprod_crcf_run s h x n y = Some (Inr (s', LIQUID_OK))
                \<and> complexes_at s' y 1 = Some [dot_product c xs]"
    by (simp add: run_value [OF assms(2,3)])
qed

lemma heap3_object: "dotprod_object heap3 (Ptr 3 0) 128 (replicate 128 1)"
  by (simp add: dotprod_object_def object_at_def load_struct_def block_at_def heap3_def)

lemma heap3_samples:
  "complexes_at heap3 (Ptr 1 0) (unat (128::u32)) = Some (interleaved (replicate 256 1))"
  by (simp add: complexes_at_def floats_at_def heap3_def block_at_def)

lemma heap3_coefficients: "floats_at heap3 (Ptr 0 0) (unat (128::u32)) = Some (replicate 128 1)"
  by (simp add: floats_at_def heap3_def block_at_def)

theorem kernels_agree_with_run_witness:
  "dotprod_object heap2 (Ptr 3 0) 3 [1, 2, 3]
   \<and> floats_at heap2 (Ptr 0 0) (unat (3::u32)) = Some [1, 2, 3]
   \<and> complexes_at heap2 (Ptr 1 0) (unat (3::u32)) = Some [Complex 1 0, Complex 0 1, Complex 1 1]
   \<and> floats_at heap2 (Ptr 2 0) 2 \<noteq> None
   \<and> dotprod_crcf_execute_avx512f heap2 (Ptr 3 0) (Ptr 1 0) (Ptr 2 0)
       = dotprod_crcf_run heap2 (Ptr 0 0) (Ptr 1 0) 3 (Ptr 2 0)
   \<and> dotprod_crcf_execute_avx512f4 heap2 (Ptr 3 0) (Ptr 1 0) (Ptr 2 0)
       = dotprod_crcf_run heap2 (Ptr 0 0) (Ptr 1 0) 3 (Ptr 2 0)
   \<and> (\<exists>s'. dotprod_crcf_run heap2 (Ptr 0 0) (Ptr 1 0) 3 (Ptr 2 0) = Some (Inr (s', LIQUID_OK))
          \<and> complexes_at s' (Ptr 2 0) 1 = Some [Complex 4 5])
   \<and> dotprod_object heap3 (Ptr 3 0) 128 (replicate 128 1)
   \<and> floats_at heap3 (Ptr 0 0) (unat (128::u32)) = Some (replicate 128 1)
   \<and> complexes_at heap3 (Ptr 1 0) (unat (128::u32)) = Some (interleaved (replicate 256 1))
   \<and> dotprod_crcf_execute_avx512f heap3 (Ptr 3 0) (Ptr 1 0) (Ptr 2 0)
       = dotprod_crcf_run heap3 (Ptr 0 0) (Ptr 1 0) 128 (Ptr 2 0)
   \<and> dotprod_crcf_execute_avx512f4 heap3 (Ptr 3 0) (Ptr 1 0) (Ptr 2 0)
       = dotprod_crcf_run heap3 (Ptr 0 0) (Ptr 1 0) 128 (Ptr 2 0)"
  using kernels_agree_with_run [OF heap2_object heap2_coefficients heap2_samples, of "Ptr 2 0"]
    kernels_agree_with_run [OF heap3_object heap3_coefficients heap3_samples, of "Ptr 2 0"]
    heap2_object heap2_coefficients heap2_samples heap2_output
    heap3_object heap3_coefficients heap3_samples
  unfolding heap0_dot_product
  by blast

lemma dotprod_object_get_n: "dotprod_object s q n c \<Longrightarrow> get_n s q = Inr n"
  by (auto simp: dotprod_object_def elim!: object_atD intro: get_n_load_struct)

lemma heap7_count: "get_n heap7 (Ptr 0 0) = Inr 8"
  by (simp add: get_n_def load_struct_def block_at_def heap7_def)

lemma heap7_narrow:
  "dotprod_crcf_execute_avx512f heap7 (Ptr 0 0) (Ptr 1 0) (Ptr 2 0) = Some (Inl InvalidAccess)"
proof -
  have b: "push_bit 4 (drop_bit 4 (2 * 8 :: u32)) = 16" by simp
  have lt: "(0::u32) < 16" by simp
  have "vector_mac heap7 (Ptr 0 0) (Ptr 1 0) 0 acc = Inl InvalidAccess" for acc
    by (simp add: vector_mac_def mm512_loadu_ps_def read_floats_def index_ptr_def block_at_def
        heap7_def)
  then show ?thesis
    by (simp add: dotprod_crcf_execute_avx512f_def heap7_count b for_loop_step [OF lt])
qed

lemma heap7_wide:
  "dotprod_crcf_execute_avx512f4 heap7 (Ptr 0 0) (Ptr 1 0) (Ptr 2 0) = Some (Inl NullDereference)"
proof -
  have b: "push_bit 4 (drop_bit 6 (2 * 8 :: u32)) = 0" by simp
  have lt: "(0::u32) < 16" by simp
  have "cleanup heap7 (Ptr 0 0) (Ptr 1 0) 0 w = Inl NullDereference" for w
    by (simp add: cleanup_def load_def get_coef_def get_h_def load_struct_def block_at_def
        heap7_def)
  then show ?thesis
    by (simp add: dotprod_crcf_execute_avx512f4_def heap7_count b for_loop_done
        for_loop_step [OF lt])
qed

lemma heap8_count: "get_n heap8 (Ptr 0 0) = Inr 128"
  by (simp add: get_n_def load_struct_def block_at_def heap8_def)

lemma heap8_narrow:
  "dotprod_crcf_execute_avx512f heap8 (Ptr 0 0) (Ptr 1 0) (Ptr 2 0) = Some (Inl NullDereference)"
proof -
  have b: "push_bit 4 (drop_bit 4 (2 * 128 :: u32)) = 256" by simp
  have lt: "(0::u32) < 256" by simp
  have "vector_mac heap8 (Ptr 0 0) (Ptr 1 0) 0 acc = Inl NullDereference" for acc
    by (simp add: vector_mac_def mm512_loadu_ps_def mm512_load_ps_def read_floats_def
        index_ptr_def get_h_def load_struct_def block_at_def heap8_def)
  then show ?thesis
    by (simp add: dotprod_crcf_execute_avx512f_def heap8_count b for_loop_step [OF lt])
qed

lemma heap8_wide:
  "dotprod_crcf_execute_avx512f4 heap8 (Ptr 0 0) (Ptr 1 0) (Ptr 2 0) = Some (Inl InvalidAccess)"
proof -
  have b: "push_bit 4 (drop_bit 6 (2 * 128 :: u32)) = 64" by simp
  have lt: "(0::u32) < 64" by simp
  have "vector_mac4 heap8 (Ptr 0 0) (Ptr 1 0) 0 acc = Inl InvalidAccess" for acc
    by (simp add: vector_mac4_def mm512_loadu_ps_def read_floats_def index_ptr_def block_at_def
        heap8_def)
  then show ?thesis
    by (simp add: dotprod_crcf_execute_avx512f4_def heap8_count b for_loop_step [OF lt])
qed

text \<open>
  C3. For every object \<open>q\<close> and sample array \<open>x\<close>, \<^verbatim>\<open>dotprod_crcf_execute\<close> calls the
  narrow kernel exactly when \<open>q.n < 128\<close> and the wide kernel exactly when
  \<open>q.n \<ge> 128\<close>: whatever else the memory holds, its outcome is that of the kernel that
  the count alone selects. And the choice does not change the result: on an object
  with its \<open>n\<close> samples both kernels have the same outcome, the dot product stored
  into the output.
\<close>

theorem execute_dispatch:
  "(get_n s q = Inr n \<longrightarrow>
      dotprod_crcf_execute s q x y
        = (if n < 128 then dotprod_crcf_execute_avx512f s q x y
           else dotprod_crcf_execute_avx512f4 s q x y))
   \<and> (dotprod_object s q n c \<longrightarrow> complexes_at s x (unat n) = Some xs \<longrightarrow>
        dotprod_crcf_execute_avx512f s q x y = dotprod_crcf_execute_avx512f4 s q x y
        \<and> dotprod_crcf_execute s q x y
            = Some (seq (store_complex s y (dot_product c xs)) (\<lambda>s'. Inr (s', LIQUID_OK))))"
proof (intro conjI impI)
  assume "get_n s q = Inr n"
  then show "dotprod_crcf_execute s q x y
        = (if n < 128 then dotprod_crcf_execute_avx512f s q x y
           else dotprod_crcf_execute_avx512f4 s q x y)"
    by (simp add: dotprod_crcf_execute_def)
next
  assume a: "dotprod_object s q n c" "complexes_at s x (unat n) = Some xs"
  show "dotprod_crcf_execute_avx512f s q x y = dotprod_crcf_execute_avx512f4 s q x y"
    by (simp only: object_value(1,2) [OF a])
  show "dotprod_crcf_execute s q x y
           = Some (seq (store_complex s y (dot_product c xs)) (\<lambda>s'. Inr (s', LIQUID_OK)))"
    by (rule object_value(3) [OF a])
qed

theorem execute_dispatch_witness:
  "get_n heap7 (Ptr 0 0) = Inr 8
   \<and> dotprod_crcf_execute heap7 (Ptr 0 0) (Ptr 1 0) (Ptr 2 0) = Some (Inl InvalidAccess)
   \<and> dotprod_crcf_execute_avx512f heap7 (Ptr 0 0) (Ptr 1 0) (Ptr 2 0) = Some (Inl InvalidAccess)
   \<and> dotprod_crcf_execute_avx512f4 heap7 (Ptr 0 0) (Ptr 1 0) (Ptr 2 0) = Some (Inl NullDereference)
   \<and> get_n heap8 (Ptr 0 0) = Inr 128
   \<and> dotprod_crcf_execute heap8 (Ptr 0 0) (Ptr 1 0) (Ptr 2 0) = Some (Inl InvalidAccess)
   \<and> dotprod_crcf_execute_avx512f heap8 (Ptr 0 0) (Ptr 1 0) (Ptr 2 0) = Some (Inl NullDereference)
   \<and> dotprod_crcf_execute_avx512f4 heap8 (Ptr 0 0) (Ptr 1 0) (Ptr 2 0) = Some (Inl InvalidAccess)
   \<and> dotprod_object heap3 (Ptr 3 0) 128 (replicate 128 1)
   \<and> complexes_at heap3 (Ptr 1 0) (unat (128::u32)) = Some (interleaved (replicate 256 1))
   \<and> dotprod_crcf_execute heap3 (Ptr 3 0) (Ptr 1 0) (Ptr 2 0)
       = dotprod_crcf_execute_avx512f4 heap3 (Ptr 3 0) (Ptr 1 0) (Ptr 2 0)
   \<and> dotprod_crcf_execute_avx512f heap3 (Ptr 3 0) (Ptr 1 0) (Ptr 2 0)
       = dotprod_crcf_execute_avx512f4 heap3 (Ptr 3 0) (Ptr 1 0) (Ptr 2 0)
   \<and> dotprod_object heap2 (Ptr 3 0) 3 [1, 2, 3]
   \<and> complexes_at heap2 (Ptr 1 0) (unat (3::u32)) = Some [Complex 1 0, Complex 0 1, Complex 1 1]
   \<and> dotprod_crcf_execute heap2 (Ptr 3 0) (Ptr 1 0) (Ptr 2 0)
       = dotprod_crcf_execute_avx512f heap2 (Ptr 3 0) (Ptr 1 0) (Ptr 2 0)"
  using execute_dispatch [of heap7 "Ptr 0 0" 8 "Ptr 1 0" "Ptr 2 0"]
    execute_dispatch [of heap8 "Ptr 0 0" 128 "Ptr 1 0" "Ptr 2 0"]
    execute_dispatch [of heap3 "Ptr 3 0" 128 "Ptr 1 0" "Ptr 2 0" "replicate 128 1"
      "interleaved (replicate 256 1)"]
    execute_dispatch [of heap2 "Ptr 3 0" 3 "Ptr 1 0" "Ptr 2 0" "[1, 2, 3]"
      "[Complex 1 0, Complex 0 1, Complex 1 1]"]
    heap7_count heap7_narrow heap7_wide heap8_count heap8_narrow heap8_wide
    heap3_object heap3_samples heap2_object heap2_samples
    dotprod_object_get_n [OF heap3_object] dotprod_object_get_n [OF heap2_object]
  by simp

lemma heap4_count: "get_n heap4 (Ptr 0 0) = Inr 0"
  by (simp add: get_n_def load_struct_def block_at_def heap4_def)

lemma heap4_output: "floats_at heap4 (Ptr 1 0) 2 \<noteq> None"
  by (simp add: floats_at_def block_at_def heap4_def)

text \<open>
  C7. For an object with \<open>n = 0\<close>, \<^verbatim>\<open>dotprod_crcf_execute\<close> and both kernels return
  \<open>LIQUID_OK\<close> with \<open>0 + 0i\<close> stored into the output, whatever the sample pointer and
  the buffer pointer are: the blocked loops and the cleanup loops end at once with
  their locals as they were, so nothing is read, and both masked sums of the zero
  register are zero.
\<close>

theorem execute_zero_length:
  assumes "get_n s q = Inr 0" and "floats_at s y 2 \<noteq> None"
  shows "\<exists>s'. store_complex s y 0 = Inr s'
           \<and> complexes_at s' y 1 = Some [0]
           \<and> dotprod_crcf_execute s q x y = Some (Inr (s', LIQUID_OK))
           \<and> dotprod_crcf_execute_avx512f s q x y = Some (Inr (s', LIQUID_OK))
           \<and> dotprod_crcf_execute_avx512f4 s q x y = Some (Inr (s', LIQUID_OK))
           \<and> for_loop (push_bit 4 (drop_bit 4 (2 * 0))) 16 (vector_mac s q x) 0 mm512_setzero_ps
               = Some (Inr (0, mm512_setzero_ps))
           \<and> for_loop (push_bit 4 (drop_bit 6 (2 * 0))) 16 (vector_mac4 s q x) 0 mm512_setzero_ps
               = Some (Inr (0, mm512_setzero_ps))
           \<and> for_loop (2 * 0) 2 (cleanup s q x) 0 (0, 0) = Some (Inr (0, (0, 0)))
           \<and> mm512_mask_reduce_add_ps 0x5555 mm512_setzero_ps = 0
           \<and> mm512_mask_reduce_add_ps 0xAAAA mm512_setzero_ps = 0"
proof -
  obtain s' where s': "store_complex s y 0 = Inr s'" "complexes_at s' y 1 = Some [0]"
    using store_complex_ok [OF assms(2), of 0] by blast
  have narrow: "dotprod_crcf_execute_avx512f s q x y = Some (Inr (s', LIQUID_OK))"
    by (simp add: dotprod_crcf_execute_avx512f_def assms(1) for_loop_done reduce_setzero s')
  have wide: "dotprod_crcf_execute_avx512f4 s q x y = Some (Inr (s', LIQUID_OK))"
    by (simp add: dotprod_crcf_execute_avx512f4_def assms(1) for_loop_done reduce_setzero s')
  have "dotprod_crcf_execute s q x y = Some (Inr (s', LIQUID_OK))"
    by (simp add: dotprod_crcf_execute_def assms(1) narrow)
  with narrow wide s' show ?thesis
    by (simp add: for_loop_done reduce_setzero)
qed

theorem execute_zero_length_witness:
  "get_n heap4 (Ptr 0 0) = Inr 0 \<and> floats_at heap4 (Ptr 1 0) 2 \<noteq> None
   \<and> dotprod_crcf_execute heap4 (Ptr 0 0) NULL (Ptr 1 0)
       = Some (Inr (heap4\<lparr>cells := (cells heap4)[1 := Some (Floats [0, 0])]\<rparr>, LIQUID_OK))"
  using execute_zero_length [OF heap4_count heap4_output, of NULL] heap4_count heap4_output
  by (auto simp: store_complex_def store_def block_at_def heap4_def)

section \<open>Creation\<close>

lemma for_loop_inv:
  assumes "unat i + k * unat step = unat bound" and "0 < unat step" and "P 0 a"
    and "\<And>j a. j < k \<Longrightarrow> P j a \<Longrightarrow> \<exists>a'. body (i + of_nat j * step) a = Inr a' \<and> P (Suc j) a'"
  shows "\<exists>a'. for_loop bound step body i a = Some (Inr (bound, a')) \<and> P k a'"
  using assms
proof (induction k arbitrary: i a P)
  case 0
  then have "i = bound" by (simp add: word_unat_eq_iff)
  with "0.prems"(3) show ?case by (simp add: for_loop_done)
next
  case (Suc k)
  have lt: "i < bound"
    using Suc.prems(1,2) by (simp add: word_less_nat_alt)
  obtain a1 where b0: "body i a = Inr a1" and p1: "P (Suc 0) a1"
    using Suc.prems(4) [of 0 a] Suc.prems(3) by auto
  have "unat i + unat step < 2 ^ 32"
    using Suc.prems(1) unsigned_less [of bound, where 'a = nat] by simp
  then have un: "unat (i + step) = unat i + unat step"
    by (simp add: unat_add_lem [THEN iffD1])
  have bs: "\<exists>b'. body (i + step + of_nat j * step) b = Inr b' \<and> P (Suc (Suc j)) b'"
    if "j < k" "P (Suc j) b" for j b
    using Suc.prems(4) [of "Suc j" b] that by (simp add: algebra_simps)
  have "\<exists>a'. for_loop bound step body (i + step) a1 = Some (Inr (bound, a')) \<and> P (Suc k) a'"
    by (rule Suc.IH [where P = "\<lambda>j. P (Suc j)"]) (use Suc.prems un bs p1 in simp_all)
  then show ?case
    by (simp add: for_loop_step lt b0)
qed

text \<open>A loop whose body stops with an error on its way stops with that error.\<close>

lemma for_loop_stops:
  assumes "unat i + k * unat step < unat bound" and "0 < unat step" and "P 0 a"
    and "\<And>j a. j < k \<Longrightarrow> P j a \<Longrightarrow> \<exists>a'. body (i + of_nat j * step) a = Inr a' \<and> P (Suc j) a'"
    and "\<And>a. P k a \<Longrightarrow> body (i + of_nat k * step) a = Inl e"
  shows "for_loop bound step body i a = Some (Inl e)"
  using assms
proof (induction k arbitrary: i a P)
  case 0
  then have lt: "i < bound" by (simp add: word_less_nat_alt)
  from "0.prems"(5) [OF "0.prems"(3)] show ?case by (simp add: for_loop_step lt)
next
  case (Suc k)
  have lt: "i < bound"
    using Suc.prems(1,2) by (simp add: word_less_nat_alt)
  obtain a1 where b0: "body i a = Inr a1" and p1: "P (Suc 0) a1"
    using Suc.prems(4) [of 0 a] Suc.prems(3) by auto
  have "unat i + unat step < 2 ^ 32"
    using Suc.prems(1) unsigned_less [of bound, where 'a = nat] by simp
  then have un: "unat (i + step) = unat i + unat step"
    by (simp add: unat_add_lem [THEN iffD1])
  have bs: "\<exists>b'. body (i + step + of_nat j * step) b = Inr b' \<and> P (Suc (Suc j)) b'"
    if "j < k" "P (Suc j) b" for j b
    using Suc.prems(4) [of "Suc j" b] that by (simp add: algebra_simps)
  have bf: "body (i + step + of_nat k * step) b = Inl e" if "P (Suc k) b" for b
    using Suc.prems(5) [of b] that by (simp add: algebra_simps)
  have "for_loop bound step body (i + step) a1 = Some (Inl e)"
    by (rule Suc.IH [where P = "\<lambda>j. P (Suc j)"]) (use Suc.prems un bs bf p1 in simp_all)
  then show ?case
    by (simp add: for_loop_step lt b0)
qed

subsection \<open>The heap with a new object\<close>

lemma block_at_with_object:
  "block_at (with_object s n buf) a =
     (if a < length (cells s) then block_at s a
      else if a = length (cells s) then Some (Struct n (Ptr (Suc (length (cells s))) 0))
      else if a = Suc (length (cells s)) then Some (Floats buf)
      else None)"
  by (auto simp: block_at_def with_object_def nth_append)

lemma block_at_SomeD: "block_at s a = Some b \<Longrightarrow> a < length (cells s)"
  by (simp add: block_at_def split: if_splits)

lemma load_struct_with_object:
  "load_struct (with_object s n buf) (Ptr (length (cells s)) 0) = Inr (n, Ptr (Suc (length (cells s))) 0)"
  by (simp add: load_struct_def block_at_with_object)

lemma object_at_with_object:
  "object_at (with_object s n buf) (Ptr (length (cells s)) 0) = Some (n, buf)"
  by (simp add: object_at_def load_struct_with_object block_at_with_object)

lemma floats_at_with_object:
  assumes "floats_at s p m = Some fs"
  shows "floats_at (with_object s n buf) p m = Some fs"
proof (cases "m = 0")
  case True
  with assms show ?thesis by (simp add: floats_at_def)
next
  case False
  with assms obtain a off xs where p: "p = Ptr a off" and b: "block_at s a = Some (Floats xs)"
    and le: "off + m \<le> length xs" and fs: "fs = take m (drop off xs)"
    by (auto simp: floats_at_def split: if_splits ptr.splits option.splits block.splits)
  have "block_at (with_object s n buf) a = Some (Floats xs)"
    using b block_at_SomeD [OF b] by (simp add: block_at_with_object)
  then show ?thesis using False le by (simp add: floats_at_def p fs)
qed

lemma set_coef_with_object:
  assumes "i < length buf"
  shows "set_coef (with_object s n buf) (Ptr (length (cells s)) 0) i v
         = Inr (with_object s n (buf[i := v]))"
  using assms
  by (simp add: set_coef_def get_h_def load_struct_with_object store_def block_at_with_object)
     (simp add: with_object_def list_update_append)

lemma set_coef_with_object_out:
  assumes "length buf \<le> i"
  shows "set_coef (with_object s n buf) (Ptr (length (cells s)) 0) i v = Inl InvalidAccess"
  using assms
  by (simp add: set_coef_def get_h_def load_struct_with_object store_def block_at_with_object)


lemma floats_at_frame:
  assumes "floats_at s p m = Some fs"
    and "\<And>a. a < length (cells s) \<Longrightarrow> block_at s' a = block_at s a"
  shows "floats_at s' p m = Some fs"
proof (cases "m = 0")
  case True
  with assms(1) show ?thesis by (simp add: floats_at_def)
next
  case False
  with assms(1) obtain a off xs where p: "p = Ptr a off" and b: "block_at s a = Some (Floats xs)"
    and le: "off + m \<le> length xs" and fs: "fs = take m (drop off xs)"
    by (auto simp: floats_at_def split: if_splits ptr.splits option.splits block.splits)
  have "block_at s' a = Some (Floats xs)"
    using b assms(2) [OF block_at_SomeD [OF b]] by simp
  then show ?thesis using False le by (simp add: floats_at_def p fs)
qed

subsection \<open>One step of the layout loop\<close>

lemma duplicate_snoc: "duplicate (c @ [v]) = duplicate c @ [v, v]"
  by (simp add: duplicate_def)

lemma layout_step:
  assumes "j < length c" and "j < m"
  shows "(duplicate (take j c) @ replicate (2 * (m - j)) 0)[2 * j := c ! j, Suc (2 * j) := c ! j]
         = duplicate (take (Suc j) c) @ replicate (2 * (m - Suc j)) 0"
proof -
  have l: "length (duplicate (take j c)) = 2 * j"
    using assms(1) by (simp add: length_duplicate)
  have r: "replicate (2 * (m - j)) (0::real) = 0 # 0 # replicate (2 * (m - Suc j)) 0"
  proof -
    have "2 * (m - j) = Suc (Suc (2 * (m - Suc j)))" using assms by simp
    then show ?thesis by (simp only: replicate_Suc)
  qed
  have "(duplicate (take j c) @ 0 # 0 # replicate (2 * (m - Suc j)) 0)[2 * j := c ! j, Suc (2 * j) := c ! j]
        = duplicate (take j c) @ c ! j # c ! j # replicate (2 * (m - Suc j)) 0"
    by (simp add: list_update_append l)
  then show ?thesis
    using assms(1) by (simp add: r take_Suc_conv_app_nth duplicate_snoc)
qed

lemma unat_reversed_index:
  fixes i n :: u32
  assumes "unat i < unat n"
  shows "unat (n - i - 1) = unat n - unat i - 1"
proof -
  have le: "i \<le> n" using assms by (simp add: word_le_nat_alt)
  have d: "unat (n - i) = unat n - unat i" using le by (rule unat_sub)
  have "1 \<le> n - i" using d assms by (simp add: word_le_nat_alt)
  then have "unat (n - i - 1) = unat (n - i) - unat (1::u32)" by (rule unat_sub)
  with d show ?thesis by simp
qed

lemma ordered_nth:
  assumes "j < length c"
  shows "ordered rev' c ! j = c ! (if rev' \<noteq> 0 then length c - j - 1 else j)"
  using assms by (simp add: ordered_def rev_nth)

lemma length_ordered [simp]: "length (ordered rev' c) = length c"
  by (simp add: ordered_def)

lemma create_body_read:
  fixes i n :: u32
  assumes "floats_at s h (unat n) = Some c" and "unat i < unat n"
  shows "load (with_object s n buf) h (unat (if rev' \<noteq> 0 then n - i - 1 else i))
         = Inr (ordered rev' c ! unat i)"
proof -
  have len: "length c = unat n" using assms(1) by (rule floats_at_length)
  have h: "floats_at (with_object s n buf) h (unat n) = Some c"
    using assms(1) by (rule floats_at_with_object)
  have k: "unat (if rev' \<noteq> 0 then n - i - 1 else i) = (if rev' \<noteq> 0 then length c - unat i - 1 else unat i)"
    using unat_reversed_index [OF assms(2)] by (simp add: len)
  have "(if rev' \<noteq> 0 then length c - unat i - 1 else unat i) < unat n"
    using assms(2) len by simp
  then show ?thesis
    unfolding k using ordered_nth [of "unat i" c rev'] assms(2) len
    by (simp add: floats_at_load [OF h])
qed

lemma unat_index_pair:
  fixes i :: u32
  assumes "unat i < 2 ^ 31"
  shows "unat (2 * i + 0) = 2 * unat i" and "unat (2 * i + 1) = Suc (2 * unat i)"
proof -
  have d: "unat (2 * i) = 2 * unat i" using assms by (rule unat_double)
  then show "unat (2 * i + 0) = 2 * unat i" by simp
  have "unat (2 * i) + unat (1::u32) < 2 ^ LENGTH(32)" using d assms by simp
  then show "unat (2 * i + 1) = Suc (2 * unat i)"
    using d by (simp add: unat_add_lem [THEN iffD1])
qed

lemma create_body_ok:
  fixes i n :: u32
  assumes "floats_at s h (unat n) = Some c" and "unat i < unat n"
    and "unat i < 2 ^ 31" and "2 * unat i + 2 \<le> length buf"
  shows "create_body (Ptr (length (cells s)) 0) h rev' i (with_object s n buf)
         = Inr (with_object s n (buf[2 * unat i := ordered rev' c ! unat i,
                                     Suc (2 * unat i) := ordered rev' c ! unat i]))"
proof -
  note r = create_body_read [OF assms(1,2)]
  have gn: "get_n (with_object s n b) (Ptr (length (cells s)) 0) = Inr n" for b
    by (simp add: get_n_def load_struct_with_object)
  have 1: "set_coef (with_object s n buf) (Ptr (length (cells s)) 0) (2 * unat i) v
           = Inr (with_object s n (buf[2 * unat i := v]))" for v
    using assms(4) by (intro set_coef_with_object) simp
  have 2: "set_coef (with_object s n (buf[2 * unat i := v])) (Ptr (length (cells s)) 0) (Suc (2 * unat i)) w
           = Inr (with_object s n (buf[2 * unat i := v, Suc (2 * unat i) := w]))" for v w
    using assms(4) by (intro set_coef_with_object) simp
  show ?thesis
    unfolding create_body_def gn seq_Inr Let_def r unat_index_pair [OF assms(3)] 1 2
    by (rule refl)
qed

lemma create_body_out:
  fixes i n :: u32
  assumes "floats_at s h (unat n) = Some c" and "unat i < unat n"
    and "unat i < 2 ^ 31" and "length buf \<le> 2 * unat i"
  shows "create_body (Ptr (length (cells s)) 0) h rev' i (with_object s n buf) = Inl InvalidAccess"
proof -
  note r = create_body_read [OF assms(1,2)]
  have gn: "get_n (with_object s n buf) (Ptr (length (cells s)) 0) = Inr n"
    by (simp add: get_n_def load_struct_with_object)
  have 1: "set_coef (with_object s n buf) (Ptr (length (cells s)) 0) (2 * unat i) v
           = Inl InvalidAccess" for v
    using assms(4) by (rule set_coef_with_object_out)
  show ?thesis
    unfolding create_body_def gn seq_Inr Let_def r unat_index_pair [OF assms(3)] 1 seq_Inl
    by (rule refl)
qed


subsection \<open>The whole of creation\<close>

lemma create_alloc:
  assumes "sizeof_dotprod_crcf_s + unat (2 * n) * sizeof_float \<le> avail s"
  shows "dotprod_crcf_create_opt s h n rev'
         = after (for_loop n 1 (create_body (Ptr (length (cells s)) 0) h rev') 0
                    (with_object s n (replicate (unat (2 * n)) 0)))
             (\<lambda>(i, s'). Some (Inr (s', Ptr (length (cells s)) 0)))"
proof -
  have 1: "sizeof_dotprod_crcf_s \<le> avail s"
    and 2: "unat (2 * n) * sizeof_float \<le> avail s - sizeof_dotprod_crcf_s"
    using assms by simp_all
  have w: "with_object s n buf = s\<lparr>avail := avail s - (sizeof_dotprod_crcf_s + length buf * sizeof_float),
            cells := cells s @ [Some (Struct n (Ptr (Suc (length (cells s))) 0)), Some (Floats buf)]\<rparr>" for buf
    by (cases s) (simp add: with_object_def)
  show ?thesis
    by (simp add: dotprod_crcf_create_opt_def malloc_struct_def mm_malloc_floats_def malloc_def
        set_n_def set_h_def get_n_def load_struct_def store_struct_def block_at_def
        w nth_append list_update_append 1 2)
qed

lemma layout_loop:
  fixes n :: u32
  assumes "floats_at s h (unat n) = Some c" and "unat n < 2 ^ 31"
  shows "for_loop n 1 (create_body (Ptr (length (cells s)) 0) h rev') 0
           (with_object s n (replicate (2 * unat n) 0))
         = Some (Inr (n, with_object s n (duplicate (ordered rev' c))))"
proof -
  let ?c = "ordered rev' c"
  let ?P = "\<lambda>j s'. s' = with_object s n (duplicate (take j ?c) @ replicate (2 * (unat n - j)) 0)"
  have len: "length ?c = unat n" using floats_at_length [OF assms(1)] by simp
  have "\<exists>s'. for_loop n 1 (create_body (Ptr (length (cells s)) 0) h rev') 0
                (with_object s n (replicate (2 * unat n) 0)) = Some (Inr (n, s'))
             \<and> ?P (unat n) s'"
  proof (rule for_loop_inv [where P = ?P])
    show "unat (0::u32) + unat n * unat (1::u32) = unat n" by simp
    show "0 < unat (1::u32)" by simp
    show "?P 0 (with_object s n (replicate (2 * unat n) 0))" by (simp add: duplicate_def)
  next
    fix j s' assume j: "j < unat n" and s': "?P j s'"
    have u: "unat (0 + of_nat j * 1 :: u32) = j"
      using j le_unat_uoi [of j n] by simp
    have "create_body (Ptr (length (cells s)) 0) h rev' (0 + of_nat j * 1) s'
          = Inr (with_object s n ((duplicate (take j ?c) @ replicate (2 * (unat n - j)) 0)
                   [2 * j := ?c ! j, Suc (2 * j) := ?c ! j]))"
      unfolding s' using create_body_ok [OF assms(1), of "0 + of_nat j * 1" _ rev'] j u assms(2) len
      by (simp add: length_duplicate)
    then show "\<exists>a'. create_body (Ptr (length (cells s)) 0) h rev' (0 + of_nat j * 1) s' = Inr a'
                 \<and> ?P (Suc j) a'"
      using j len by (simp add: layout_step)
  qed
  then show ?thesis using len by simp
qed

lemma unat_double_wrapped:
  fixes n :: u32
  assumes "2 ^ 31 \<le> unat n"
  shows "unat (2 * n) = 2 * (unat n - 2 ^ 31)"
proof -
  have b: "unat n < 2 ^ 32" using unsigned_less [of n, where 'a = nat] by simp
  have "unat (2 * n) = (2 * unat n) mod 2 ^ 32"
    by (simp add: unat_word_ariths)
  also have "\<dots> = (2 * unat n - 2 ^ 32) mod 2 ^ 32"
    using assms by (simp add: le_mod_geq)
  also have "\<dots> = 2 * unat n - 2 ^ 32"
    using b by simp
  finally show ?thesis by simp
qed

lemma layout_loop_overflow:
  fixes n :: u32
  assumes "floats_at s h (unat n) = Some c" and "2 ^ 31 \<le> unat n"
  shows "for_loop n 1 (create_body (Ptr (length (cells s)) 0) h rev') 0
           (with_object s n (replicate (unat (2 * n)) 0))
         = Some (Inl InvalidAccess)"
proof -
  let ?c = "ordered rev' c"
  define j0 where "j0 = unat n - 2 ^ 31"
  let ?P = "\<lambda>j s'. s' = with_object s n (duplicate (take j ?c) @ replicate (2 * (j0 - j)) 0)"
  have len: "length ?c = unat n" using floats_at_length [OF assms(1)] by simp
  have b: "unat n < 2 ^ 32" using unsigned_less [of n, where 'a = nat] by simp
  have j0: "j0 < 2 ^ 31" "j0 < unat n" using assms(2) b by (simp_all add: j0_def)
  have L: "unat (2 * n) = 2 * j0" using unat_double_wrapped [OF assms(2)] by (simp add: j0_def)
  show ?thesis
    unfolding L
  proof (rule for_loop_stops [where P = ?P and k = j0])
    show "unat (0::u32) + j0 * unat (1::u32) < unat n" using j0 by simp
    show "0 < unat (1::u32)" by simp
    show "?P 0 (with_object s n (replicate (2 * j0) 0))" by (simp add: duplicate_def)
  next
    fix j s' assume j: "j < j0" and s': "?P j s'"
    have u: "unat (0 + of_nat j * 1 :: u32) = j"
      using j j0 le_unat_uoi [of j n] by simp
    have "create_body (Ptr (length (cells s)) 0) h rev' (0 + of_nat j * 1) s'
          = Inr (with_object s n ((duplicate (take j ?c) @ replicate (2 * (j0 - j)) 0)
                   [2 * j := ?c ! j, Suc (2 * j) := ?c ! j]))"
      unfolding s' using create_body_ok [OF assms(1), of "0 + of_nat j * 1" _ rev'] j j0 u len
      by (simp add: length_duplicate)
    then show "\<exists>a'. create_body (Ptr (length (cells s)) 0) h rev' (0 + of_nat j * 1) s' = Inr a'
                 \<and> ?P (Suc j) a'"
      using j j0 len by (simp add: layout_step)
  next
    fix s' assume s': "?P j0 s'"
    have u: "unat (0 + of_nat j0 * 1 :: u32) = j0"
      using j0 le_unat_uoi [of j0 n] by simp
    show "create_body (Ptr (length (cells s)) 0) h rev' (0 + of_nat j0 * 1) s' = Inl InvalidAccess"
      unfolding s' using create_body_out [OF assms(1), of "0 + of_nat j0 * 1" _ rev'] j0 u len
      by (simp add: length_duplicate)
  qed
qed


lemma create_nomem_struct:
  assumes "avail s < sizeof_dotprod_crcf_s"
  shows "dotprod_crcf_create_opt s h n rev' = Some (Inl NullDereference)"
  using assms
  by (simp add: dotprod_crcf_create_opt_def malloc_struct_def malloc_def set_n_def load_struct_def)

lemma create_nomem_buffer:
  fixes n :: u32
  assumes "sizeof_dotprod_crcf_s \<le> avail s"
    and "avail s < sizeof_dotprod_crcf_s + unat (2 * n) * sizeof_float"
    and "floats_at s h (unat n) = Some c"
  shows "dotprod_crcf_create_opt s h n rev' = Some (Inl NullDereference)"
proof -
  let ?q = "Ptr (length (cells s)) 0"
  let ?s = "s\<lparr>avail := avail s - sizeof_dotprod_crcf_s, cells := cells s @ [Some (Struct n NULL)]\<rparr>"
  have 2: "\<not> unat (2 * n) * sizeof_float \<le> avail s - sizeof_dotprod_crcf_s"
    using assms(1,2) by simp
  have "unat (2 * n) \<noteq> 0" using assms(2,1) by (intro notI) simp
  then have "n \<noteq> 0" by (intro notI) simp
  then have n: "0 < n" "0 < unat n" by (simp_all add: word_greater_zero_iff unat_gt_0)
  have start: "dotprod_crcf_create_opt s h n rev'
         = after (for_loop n 1 (create_body ?q h rev') 0 ?s) (\<lambda>(i, s'). Some (Inr (s', ?q)))"
    by (simp add: dotprod_crcf_create_opt_def malloc_struct_def mm_malloc_floats_def malloc_def
        set_n_def set_h_def get_n_def load_struct_def store_struct_def block_at_def
        nth_append list_update_append assms(1) 2)
  have ls: "load_struct ?s ?q = Inr (n, NULL)"
    by (simp add: load_struct_def block_at_def)
  have h: "floats_at ?s h (unat n) = Some c"
    using assms(3) by (rule floats_at_frame) (simp add: block_at_def nth_append)
  have k: "unat (if rev' \<noteq> 0 then n - 0 - 1 else 0 :: u32) < unat n"
    using unat_reversed_index [of 0 n] n by simp
  have "create_body ?q h rev' 0 ?s = Inl NullDereference"
    unfolding create_body_def get_n_load_struct [OF ls] seq_Inr Let_def
      floats_at_load [OF h k] set_coef_def get_h_load_struct [OF ls]
    by (simp add: store_def)
  then have "for_loop n 1 (create_body ?q h rev') 0 ?s = Some (Inl NullDereference)"
    using n(1) by (simp add: for_loop_step)
  then show ?thesis by (simp add: start)
qed

lemma create_opt_result:
  fixes n :: u32
  assumes "floats_at s h (unat n) = Some c" and "unat n < 2 ^ 31"
    and "sizeof_dotprod_crcf_s + 2 * unat n * sizeof_float \<le> avail s"
  shows "dotprod_crcf_create_opt s h n rev'
         = Some (Inr (with_object s n (duplicate (ordered rev' c)), Ptr (length (cells s)) 0))"
proof -
  have d: "unat (2 * n) = 2 * unat n" using assms(2) by (rule unat_double)
  show ?thesis
    using assms(3) by (simp add: create_alloc d layout_loop [OF assms(1,2)])
qed

lemma create_opt_returns:
  fixes n :: u32
  assumes "floats_at s h (unat n) = Some c"
    and "dotprod_crcf_create_opt s h n rev' = Some (Inr (s', q))"
  shows "unat n < 2 ^ 31" and "sizeof_dotprod_crcf_s + 2 * unat n * sizeof_float \<le> avail s"
    and "s' = with_object s n (duplicate (ordered rev' c))" and "q = Ptr (length (cells s)) 0"
proof -
  have a1: "sizeof_dotprod_crcf_s \<le> avail s"
    using create_nomem_struct [of s h n rev'] assms(2) by (cases "avail s < sizeof_dotprod_crcf_s") simp_all
  have a2: "sizeof_dotprod_crcf_s + unat (2 * n) * sizeof_float \<le> avail s"
    using create_nomem_buffer [OF a1 _ assms(1), of rev'] assms(2)
    by (cases "avail s < sizeof_dotprod_crcf_s + unat (2 * n) * sizeof_float") simp_all
  show b: "unat n < 2 ^ 31"
  proof (rule ccontr)
    assume "\<not> unat n < 2 ^ 31"
    then have "2 ^ 31 \<le> unat n" by simp
    from layout_loop_overflow [OF assms(1) this, of rev'] assms(2) show False
      by (simp add: create_alloc [OF a2])
  qed
  have d: "unat (2 * n) = 2 * unat n" using b by (rule unat_double)
  show m: "sizeof_dotprod_crcf_s + 2 * unat n * sizeof_float \<le> avail s"
    using a2 d by simp
  from create_opt_result [OF assms(1) b m, of rev'] assms(2)
  show "s' = with_object s n (duplicate (ordered rev' c))" and "q = Ptr (length (cells s)) 0"
    by simp_all
qed

lemma dotprod_object_with_object:
  fixes n :: u32
  assumes "length c = unat n" and "unat n < 2 ^ 31"
  shows "dotprod_object (with_object s n (duplicate c)) (Ptr (length (cells s)) 0) n c"
  using assms by (simp add: dotprod_object_def object_at_with_object)

section \<open>What an operation changes\<close>

lemma storeD:
  assumes "store s p i v = Inr s'"
  obtains a off fs where "p = Ptr a off" and "block_at s a = Some (Floats fs)"
    and "off + i < length fs"
    and "s' = s\<lparr>cells := (cells s)[a := Some (Floats (fs[off + i := v]))]\<rparr>"
  using assms
  by (auto simp: store_def split: ptr.splits option.splits block.splits if_splits)

lemma store_complexD:
  assumes "store_complex s y v = Inr s'"
  obtains a off fs where "y = Ptr a off" and "block_at s a = Some (Floats fs)"
    and "off + 2 \<le> length fs"
    and "s' = s\<lparr>cells := (cells s)[a := Some (Floats (fs[off := Re v, Suc off := Im v]))]\<rparr>"
proof -
  from assms obtain s1 where 1: "store s y 0 (Re v) = Inr s1" and 2: "store s1 y 1 (Im v) = Inr s'"
    by (auto simp: store_complex_def seq_def split: sum.splits)
  from 1 obtain a off fs where y: "y = Ptr a off" and b: "block_at s a = Some (Floats fs)"
    and s1: "s1 = s\<lparr>cells := (cells s)[a := Some (Floats (fs[off + 0 := Re v]))]\<rparr>"
    by (rule storeD)
  have a: "a < length (cells s)" using b by (rule block_at_SomeD)
  have b1: "block_at s1 a = Some (Floats (fs[off := Re v]))"
    using a by (simp add: s1 block_at_update)
  from 2 b1 have le: "off + 2 \<le> length fs"
    by (auto simp: store_def y split: if_splits)
  from store_complex_Floats [OF b le, of v] assms have
    "s' = s\<lparr>cells := (cells s)[a := Some (Floats (fs[off := Re v, Suc off := Im v]))]\<rparr>"
    by (simp add: y)
  with y b le show ?thesis by (rule that)
qed

text \<open>
  Replacing the floats of one block by as many floats leaves every record, every other
  block and the memory left as they were.
\<close>

lemma load_struct_update_floats:
  assumes "block_at s a = Some (Floats fs)"
  shows "load_struct (s\<lparr>cells := (cells s)[a := Some (Floats fs')]\<rparr>) q = load_struct s q"
  using assms
  by (auto simp: load_struct_def block_at_update split: ptr.splits option.splits block.splits)

lemma object_at_update_floats:
  assumes "block_at s a = Some (Floats fs)" and "\<And>p. get_h s q = Inr p \<Longrightarrow> block_of p \<noteq> Some a"
  shows "object_at (s\<lparr>cells := (cells s)[a := Some (Floats fs')]\<rparr>) q = object_at s q"
proof (cases "load_struct s q")
  case (Inl e)
  then show ?thesis
    by (simp add: object_at_def load_struct_update_floats [OF assms(1)])
next
  case (Inr v)
  obtain n p where v: "v = (n, p)" by (cases v)
  have "block_of p \<noteq> Some a"
    using assms(2) [of p] Inr v by (simp add: get_h_def)
  then show ?thesis
    by (auto simp: object_at_def load_struct_update_floats [OF assms(1)] Inr v block_at_update
        block_of_def split: ptr.splits)
qed

lemma floats_at_update_floats:
  assumes "block_of x \<noteq> Some a"
  shows "floats_at (s\<lparr>cells := (cells s)[a := b]\<rparr>) x m = floats_at s x m"
  using assms
  by (auto simp: floats_at_def block_at_update block_of_def split: ptr.splits)

text \<open>The memory effect of the three execution functions is one store through \<open>y\<close>.\<close>

lemma narrow_effect:
  assumes "dotprod_crcf_execute_avx512f s q x y = Some (Inr (s', r))"
  shows "r = LIQUID_OK \<and> (\<exists>v. store_complex s y v = Inr s')"
  using assms
  by (auto simp: dotprod_crcf_execute_avx512f_def after_def seq_def Let_def
      split: option.splits sum.splits prod.splits)

lemma wide_effect:
  assumes "dotprod_crcf_execute_avx512f4 s q x y = Some (Inr (s', r))"
  shows "r = LIQUID_OK \<and> (\<exists>v. store_complex s y v = Inr s')"
  using assms
  by (auto simp: dotprod_crcf_execute_avx512f4_def after_def seq_def Let_def
      split: option.splits sum.splits prod.splits)

lemma execute_effect:
  assumes "dotprod_crcf_execute s q x y = Some (Inr (s', r))"
  shows "r = LIQUID_OK \<and> (\<exists>v. store_complex s y v = Inr s')"
  using assms narrow_effect [of s q x y s' r] wide_effect [of s q x y s' r]
  by (auto simp: dotprod_crcf_execute_def after_def split: sum.splits if_splits)



lemma store_complex_frame:
  assumes "store_complex s y v = Inr s'"
  shows "load_struct s' q = load_struct s q"
    and "avail s' = avail s" and "length (cells s') = length (cells s)"
    and "\<And>a. block_of y \<noteq> Some a \<Longrightarrow> block_at s' a = block_at s a"
    and "(\<And>p. get_h s q = Inr p \<Longrightarrow> block_of p \<noteq> block_of y) \<Longrightarrow> object_at s' q = object_at s q"
    and "block_of x \<noteq> block_of y \<Longrightarrow> floats_at s' x m = floats_at s x m"
proof -
  from assms obtain a off fs where y: "y = Ptr a off" and b: "block_at s a = Some (Floats fs)"
    and s': "s' = s\<lparr>cells := (cells s)[a := Some (Floats (fs[off := Re v, Suc off := Im v]))]\<rparr>"
    by (rule store_complexD)
  have by': "block_of y = Some a" by (simp add: y block_of_def)
  show "load_struct s' q = load_struct s q"
    unfolding s' using b by (rule load_struct_update_floats)
  show "avail s' = avail s" and "length (cells s') = length (cells s)"
    by (simp_all add: s')
  show "block_at s' a' = block_at s a'" if "block_of y \<noteq> Some a'" for a'
    using that by (auto simp: s' by' block_at_update)
  show "object_at s' q = object_at s q" if "\<And>p. get_h s q = Inr p \<Longrightarrow> block_of p \<noteq> block_of y"
    unfolding s' using b that by (intro object_at_update_floats) (simp_all add: by')
  show "floats_at s' x m = floats_at s x m" if "block_of x \<noteq> block_of y"
    unfolding s' using that by (intro floats_at_update_floats) (simp add: by')
qed

lemma heap2_execute:
  "dotprod_crcf_execute heap2 (Ptr 3 0) (Ptr 1 0) (Ptr 2 0)
   = Some (Inr (heap2\<lparr>cells := (cells heap2)[2 := Some (Floats [4, 5])]\<rparr>, LIQUID_OK))"
  unfolding object_value(3) [OF heap2_object heap2_samples] heap0_dot_product
  by (simp add: store_complex_def store_def block_at_def heap2_def)

text \<open>
  C10. A call of \<^verbatim>\<open>dotprod_crcf_execute\<close>, or of either kernel, that returns has done
  one thing to memory: it has stored a complex value through the output pointer \<open>y\<close>.
  The record of \<open>q\<close>, with \<open>n\<close> and the buffer pointer, is as before; every block but
  the one \<open>y\<close> points into is as before; so the coefficient buffer is as before unless
  \<open>y\<close> points into it, and the samples at \<open>x\<close> are as before unless \<open>y\<close> points into
  their block.
\<close>

theorem execute_leaves_object:
  assumes "dotprod_crcf_execute s q x y = Some (Inr (s', r))
         \<or> dotprod_crcf_execute_avx512f s q x y = Some (Inr (s', r))
         \<or> dotprod_crcf_execute_avx512f4 s q x y = Some (Inr (s', r))"
  shows "(\<exists>v. store_complex s y v = Inr s')
       \<and> load_struct s' q = load_struct s q
       \<and> avail s' = avail s \<and> length (cells s') = length (cells s)
       \<and> (\<forall>a. block_of y \<noteq> Some a \<longrightarrow> block_at s' a = block_at s a)
       \<and> ((\<forall>p. get_h s q = Inr p \<longrightarrow> block_of p \<noteq> block_of y) \<longrightarrow> object_at s' q = object_at s q)
       \<and> (block_of x \<noteq> block_of y \<longrightarrow> (\<forall>m. floats_at s' x m = floats_at s x m))"
proof -
  from assms obtain v where v: "store_complex s y v = Inr s'"
    using execute_effect [of s q x y s' r] narrow_effect [of s q x y s' r]
      wide_effect [of s q x y s' r]
    by blast
  show ?thesis
    using store_complex_frame [OF v] v by blast
qed

theorem execute_leaves_object_witness:
  "dotprod_crcf_execute heap2 (Ptr 3 0) (Ptr 1 0) (Ptr 2 0)
     = Some (Inr (heap2\<lparr>cells := (cells heap2)[2 := Some (Floats [4, 5])]\<rparr>, LIQUID_OK))
   \<and> object_at (heap2\<lparr>cells := (cells heap2)[2 := Some (Floats [4, 5])]\<rparr>) (Ptr 3 0)
       = object_at heap2 (Ptr 3 0)
   \<and> floats_at (heap2\<lparr>cells := (cells heap2)[2 := Some (Floats [4, 5])]\<rparr>) (Ptr 1 0) 6
       = floats_at heap2 (Ptr 1 0) 6"
proof -
  note inst = execute_leaves_object [of heap2 "Ptr 3 0" "Ptr 1 0" "Ptr 2 0", OF disjI1, OF heap2_execute]
  have h: "get_h heap2 (Ptr 3 0) = Inr (Ptr 4 0)"
    by (simp add: get_h_def load_struct_def block_at_def heap2_def)
  have "\<forall>p. get_h heap2 (Ptr 3 0) = Inr p \<longrightarrow> block_of p \<noteq> block_of (Ptr 2 0)"
    by (simp add: h block_of_def)
  moreover have "block_of (Ptr 1 0) \<noteq> block_of (Ptr 2 0)"
    by (simp add: block_of_def)
  ultimately show ?thesis
    using inst heap2_execute by blast
qed

section \<open>The outcome of creation\<close>

text \<open>
  From a readable coefficient array, creation has one of three outcomes: a write
  through the null pointer of a failed allocation, a write past the end of the buffer
  when \<^verbatim>\<open>2*n\<close> has wrapped, or the new object.
\<close>

lemma create_opt_outcome:
  fixes n :: u32
  assumes "floats_at s h (unat n) = Some c"
  shows "dotprod_crcf_create_opt s h n rev' =
           (if avail s < sizeof_dotprod_crcf_s + unat (2 * n) * sizeof_float
            then Some (Inl NullDereference)
            else if 2 ^ 31 \<le> unat n then Some (Inl InvalidAccess)
            else Some (Inr (with_object s n (duplicate (ordered rev' c)), Ptr (length (cells s)) 0)))"
proof (cases "avail s < sizeof_dotprod_crcf_s + unat (2 * n) * sizeof_float")
  case True
  then show ?thesis
    using create_nomem_struct [of s h n rev'] create_nomem_buffer [OF _ True assms, of rev']
    by (cases "avail s < sizeof_dotprod_crcf_s") simp_all
next
  case False
  then have a: "sizeof_dotprod_crcf_s + unat (2 * n) * sizeof_float \<le> avail s" by simp
  show ?thesis
  proof (cases "2 ^ 31 \<le> unat n")
    case True
    then show ?thesis
      using False by (simp add: create_alloc [OF a] layout_loop_overflow [OF assms True])
  next
    case b: False
    then have b': "unat n < 2 ^ 31" by simp
    have "sizeof_dotprod_crcf_s + 2 * unat n * sizeof_float \<le> avail s"
      using a unat_double [OF b'] by simp
    from create_opt_result [OF assms b' this, of rev'] show ?thesis
      using False b by simp
  qed
qed

lemma ordered_rev: "ordered 1 c = ordered 0 (rev c)"
  by (simp add: ordered_def)

lemma heap0_short: "avail heap0 < sizeof_dotprod_crcf_s + unat (2 * (3::u32)) * sizeof_float"
  by (simp add: heap0_def sizeof_dotprod_crcf_s_def)

text \<open>
  C9, as the code has it. When the allocation of the record or of the buffer cannot be
  satisfied during \<^verbatim>\<open>dotprod_crcf_create\<close> or \<^verbatim>\<open>dotprod_crcf_create_rev\<close> from a
  readable array, no allocation error is returned: neither result is checked, and the
  function writes through the null pointer, which has no defined behaviour.
\<close>

theorem create_allocation_unchecked:
  assumes "floats_at s h (unat n) = Some c"
    and "avail s < sizeof_dotprod_crcf_s + unat (2 * n) * sizeof_float"
  shows "dotprod_crcf_create_opt s h n rev' = Some (Inl NullDereference)
       \<and> dotprod_crcf_create s h n = Some (Inl NullDereference)
       \<and> dotprod_crcf_create_rev s h n = Some (Inl NullDereference)"
  using assms(2)
  by (simp add: dotprod_crcf_create_def dotprod_crcf_create_rev_def create_opt_outcome [OF assms(1)])

theorem create_allocation_unchecked_witness:
  "floats_at heap0 (Ptr 0 0) (unat (3::u32)) = Some [1, 2, 3]
   \<and> avail heap0 < sizeof_dotprod_crcf_s + unat (2 * (3::u32)) * sizeof_float
   \<and> dotprod_crcf_create heap0 (Ptr 0 0) 3 = Some (Inl NullDereference)
   \<and> dotprod_crcf_create_rev heap0 (Ptr 0 0) 3 = Some (Inl NullDereference)"
  using create_allocation_unchecked [OF heap0_coefficients heap0_short] heap0_coefficients heap0_short
  by simp

text \<open>
  The claim C9 as it is written fails: with no memory left, creation ends in the null
  dereference, not in an error value; and with memory for the record but not for the
  buffer, the same.
\<close>

theorem create_allocation_counterexample:
  "dotprod_crcf_create_opt heap0 (Ptr 0 0) 3 0 = Some (Inl NullDereference)
   \<and> dotprod_crcf_create_opt (heap0\<lparr>avail := 20\<rparr>) (Ptr 0 0) 3 0 = Some (Inl NullDereference)"
proof
  show "dotprod_crcf_create_opt heap0 (Ptr 0 0) 3 0 = Some (Inl NullDereference)"
    by (simp add: dotprod_crcf_create_opt_def malloc_struct_def malloc_def set_n_def
        load_struct_def heap0_def sizeof_dotprod_crcf_s_def)
  have 1: "(0::u32) < 3" by simp
  show "dotprod_crcf_create_opt (heap0\<lparr>avail := 20\<rparr>) (Ptr 0 0) 3 0 = Some (Inl NullDereference)"
    by (simp add: dotprod_crcf_create_opt_def malloc_struct_def mm_malloc_floats_def malloc_def
        set_n_def set_h_def get_n_def get_h_def load_struct_def store_struct_def block_at_def
        heap0_def sizeof_dotprod_crcf_s_def sizeof_float_def for_loop_step [OF 1]
        create_body_def load_def set_coef_def store_def)
qed

lemma complexes_at_with_object:
  "complexes_at s p m = Some xs \<Longrightarrow> complexes_at (with_object s n buf) p m = Some xs"
  by (auto simp: complexes_at_def floats_at_with_object)

lemma floats_at_with_object_None:
  "floats_at s p m \<noteq> None \<Longrightarrow> floats_at (with_object s n buf) p m \<noteq> None"
  using floats_at_with_object [of s p m _ n buf] by auto

lemma heap5_coefficients: "floats_at heap5 (Ptr 0 0) (unat (3::u32)) = Some [1, 2, 3]"
  by (simp add: floats_at_def heap5_def block_at_def)

lemma heap5_reversed: "floats_at heap5 (Ptr 1 0) (unat (3::u32)) = Some (rev [1, 2, 3])"
  by (simp add: floats_at_def heap5_def block_at_def)

lemma heap5_samples:
  "complexes_at heap5 (Ptr 2 0) (unat (3::u32)) = Some [Complex 1 0, Complex 0 1, Complex 1 1]"
  by (simp add: complexes_at_def floats_at_def heap5_def block_at_def interleaved_def upt_conv_Cons)

lemma heap5_output: "floats_at heap5 (Ptr 3 0) 2 \<noteq> None"
  by (simp add: floats_at_def heap5_def block_at_def)

lemma heap5_create_rev:
  "dotprod_crcf_create_rev heap5 (Ptr 0 0) 3
   = Some (Inr (with_object heap5 3 (duplicate [3, 2, 1]), Ptr 4 0))"
  unfolding dotprod_crcf_create_rev_def create_opt_outcome [OF heap5_coefficients]
  by (simp add: heap5_def sizeof_dotprod_crcf_s_def sizeof_float_def ordered_def)

lemma heap5_dot_product:
  "dot_product (rev [1, 2, 3]) [Complex 1 0, Complex 0 1, Complex 1 1] = Complex 4 3"
  by (simp add: dot_product_def lessThan_Suc numeral_3_eq_3 complex_eq_iff)

text \<open>
  C6. For every coefficient array \<open>h\<close> of \<open>n\<close> floats, with its reverse in memory as
  well, \<^verbatim>\<open>dotprod_crcf_create_rev\<close> on \<open>h\<close> and \<^verbatim>\<open>dotprod_crcf_create\<close> on the reverse
  have the same outcome, so executing the one object on samples \<open>x\<close> is executing the
  other; on \<open>n\<close> readable samples the result is the dot product with the reversed
  coefficients.
\<close>

theorem create_rev_is_create_of_reverse:
  assumes "floats_at s h (unat n) = Some c" and "floats_at s hr (unat n) = Some (rev c)"
  shows "dotprod_crcf_create_rev s h n = dotprod_crcf_create s hr n
       \<and> (dotprod_crcf_create_rev s h n = Some (Inr (s1, q1)) \<longrightarrow>
          dotprod_crcf_create s hr n = Some (Inr (s2, q2)) \<longrightarrow>
            dotprod_crcf_execute s1 q1 x y = dotprod_crcf_execute s2 q2 x y
            \<and> (complexes_at s1 x (unat n) = Some xs \<longrightarrow>
                 dotprod_crcf_execute s1 q1 x y
                 = Some (seq (store_complex s1 y (dot_product (rev c) xs)) (\<lambda>s'. Inr (s', LIQUID_OK)))))"
proof -
  have same: "dotprod_crcf_create_rev s h n = dotprod_crcf_create s hr n"
    by (simp add: dotprod_crcf_create_rev_def dotprod_crcf_create_def
        create_opt_outcome [OF assms(1)] create_opt_outcome [OF assms(2)] ordered_rev)
  have "dotprod_crcf_execute s1 q1 x y
        = Some (seq (store_complex s1 y (dot_product (rev c) xs)) (\<lambda>s'. Inr (s', LIQUID_OK)))"
    if r: "dotprod_crcf_create_rev s h n = Some (Inr (s1, q1))"
      and x: "complexes_at s1 x (unat n) = Some xs"
  proof -
    from r have r': "dotprod_crcf_create_opt s h n 1 = Some (Inr (s1, q1))"
      by (simp add: dotprod_crcf_create_rev_def)
    have b: "unat n < 2 ^ 31" and s1: "s1 = with_object s n (duplicate (ordered 1 c))"
      and q1: "q1 = Ptr (length (cells s)) 0"
      using create_opt_returns [OF assms(1) r'] by simp_all
    have "length (rev c) = unat n" using floats_at_length [OF assms(1)] by simp
    then have "dotprod_object s1 q1 n (rev c)"
      unfolding s1 q1 using b by (simp add: ordered_def dotprod_object_with_object)
    then show ?thesis using x by (rule object_value(3))
  qed
  with same show ?thesis by auto
qed

theorem create_rev_is_create_of_reverse_witness:
  "floats_at heap5 (Ptr 0 0) (unat (3::u32)) = Some [1, 2, 3]
   \<and> floats_at heap5 (Ptr 1 0) (unat (3::u32)) = Some (rev [1, 2, 3])
   \<and> dotprod_crcf_create_rev heap5 (Ptr 0 0) 3
       = Some (Inr (with_object heap5 3 (duplicate [3, 2, 1]), Ptr 4 0))
   \<and> dotprod_crcf_create heap5 (Ptr 1 0) 3
       = Some (Inr (with_object heap5 3 (duplicate [3, 2, 1]), Ptr 4 0))
   \<and> complexes_at (with_object heap5 3 (duplicate [3, 2, 1])) (Ptr 2 0) (unat (3::u32))
       = Some [Complex 1 0, Complex 0 1, Complex 1 1]
   \<and> dotprod_crcf_execute (with_object heap5 3 (duplicate [3, 2, 1])) (Ptr 4 0) (Ptr 2 0) (Ptr 3 0)
       = Some (seq (store_complex (with_object heap5 3 (duplicate [3, 2, 1])) (Ptr 3 0) (Complex 4 3))
               (\<lambda>s'. Inr (s', LIQUID_OK)))"
proof -
  let ?s = "with_object heap5 3 (duplicate [3, 2, 1])"
  note inst = create_rev_is_create_of_reverse [OF heap5_coefficients heap5_reversed,
      of ?s "Ptr 4 0" ?s "Ptr 4 0" "Ptr 2 0" "Ptr 3 0" "[Complex 1 0, Complex 0 1, Complex 1 1]"]
  have x: "complexes_at ?s (Ptr 2 0) (unat (3::u32)) = Some [Complex 1 0, Complex 0 1, Complex 1 1]"
    using heap5_samples by (rule complexes_at_with_object)
  from inst have c: "dotprod_crcf_create heap5 (Ptr 1 0) 3 = Some (Inr (?s, Ptr 4 0))"
    using heap5_create_rev by simp
  from inst heap5_create_rev c x
  have "dotprod_crcf_execute ?s (Ptr 4 0) (Ptr 2 0) (Ptr 3 0)
       = Some (seq (store_complex ?s (Ptr 3 0) (Complex 4 3)) (\<lambda>s'. Inr (s', LIQUID_OK)))"
    unfolding heap5_dot_product by blast
  with heap5_coefficients heap5_reversed heap5_create_rev c x show ?thesis by blast
qed

section \<open>Copy\<close>

lemma object_atE:
  assumes "object_at s q = Some (n, buf)"
  obtains a b where "q = Ptr a 0" and "block_at s a = Some (Struct n (Ptr b 0))"
    and "block_at s b = Some (Floats buf)"
  using assms
  by (auto simp: object_at_def load_struct_def
      split: sum.splits ptr.splits option.splits block.splits if_splits)

lemma object_at_kept:
  assumes "object_at s q = Some v"
    and "\<And>a. a < length (cells s) \<Longrightarrow> block_at s' a = block_at s a"
  shows "object_at s' q = Some v"
proof -
  obtain n buf where v: "v = (n, buf)" by (cases v)
  from assms(1) obtain a b where q: "q = Ptr a 0" and a: "block_at s a = Some (Struct n (Ptr b 0))"
    and b: "block_at s b = Some (Floats buf)"
    unfolding v by (rule object_atE)
  have "block_at s' a = Some (Struct n (Ptr b 0))" "block_at s' b = Some (Floats buf)"
    using a b assms(2) [OF block_at_SomeD [OF a]] assms(2) [OF block_at_SomeD [OF b]] by simp_all
  then show ?thesis by (simp add: object_at_def load_struct_def q v)
qed

lemma copy_null: "dotprod_crcf_copy s NULL = Inl (Failure LIQUID_EICONFIG)"
  by (simp add: dotprod_crcf_copy_def liquid_error_config_def)

lemma copy_result:
  fixes n :: u32
  assumes "dotprod_object s q n c"
    and "sizeof_dotprod_crcf_s + 2 * unat n * sizeof_float \<le> avail s"
  shows "dotprod_crcf_copy s q = Inr (with_object s n (duplicate c), Ptr (length (cells s)) 0)"
proof -
  from assms(1) have o: "object_at s q = Some (n, duplicate c)" and len: "length c = unat n"
    and bn: "unat n < 2 ^ 31"
    by (simp_all add: dotprod_object_def)
  from o obtain a b where q: "q = Ptr a 0" and a: "block_at s a = Some (Struct n (Ptr b 0))"
    and b: "block_at s b = Some (Floats (duplicate c))"
    by (rule object_atE)
  have la: "a < length (cells s)" and lb: "b < length (cells s)"
    using a b by (auto dest: block_at_SomeD)
  have ca: "cells s ! a = Some (Struct n (Ptr b 0))" and cb: "cells s ! b = Some (Floats (duplicate c))"
    using a b la lb by (simp_all add: block_at_def)
  have d: "unat (2 * n) = 2 * unat n" using bn by (rule unat_double)
  have 1: "sizeof_dotprod_crcf_s \<le> avail s"
    and 2: "2 * unat n * sizeof_float \<le> avail s - sizeof_dotprod_crcf_s"
    using assms(2) by simp_all
  have w: "with_object s n buf = s\<lparr>avail := avail s - (sizeof_dotprod_crcf_s + length buf * sizeof_float),
            cells := cells s @ [Some (Struct n (Ptr (Suc (length (cells s))) 0)), Some (Floats buf)]\<rparr>" for buf
    by (cases s) (simp add: with_object_def)
  show ?thesis
    using la lb
    by (simp add: dotprod_crcf_copy_def q malloc_struct_def mm_malloc_floats_def malloc_def
        set_n_def set_h_def get_n_def get_h_def load_struct_def store_struct_def block_at_def
        memmove_floats_def read_floats_def write_floats_def
        w nth_append list_update_append 1 2 d ca cb length_duplicate len)
qed


text \<open>No memory access reports an error of the library; it succeeds or is undefined.\<close>

lemma undefined_behaviour_iff: "undefined_behaviour m \<longleftrightarrow> (\<forall>e. m \<noteq> Inl (Failure e))"
  by (auto simp: undefined_behaviour_def split: sum.splits error.splits)

lemma ub_seq:
  "undefined_behaviour m \<Longrightarrow> (\<And>v. undefined_behaviour (f v)) \<Longrightarrow> undefined_behaviour (seq m f)"
  by (auto simp: undefined_behaviour_iff seq_def split: sum.splits)

lemma ub_Inr [simp]: "undefined_behaviour (Inr v)"
  by (simp add: undefined_behaviour_iff)

lemma ub_load_struct: "undefined_behaviour (load_struct s q)"
  by (simp add: undefined_behaviour_iff load_struct_def
      split: ptr.splits option.splits block.splits)

lemma ub_store_struct: "undefined_behaviour (store_struct s q v)"
  by (simp add: undefined_behaviour_iff store_struct_def
      split: ptr.splits option.splits block.splits)

lemma ub_read_floats: "undefined_behaviour (read_floats s p m)"
  by (simp add: undefined_behaviour_iff read_floats_def
      split: ptr.splits option.splits block.splits)

lemma ub_write_floats: "undefined_behaviour (write_floats s p vs)"
  by (simp add: undefined_behaviour_iff write_floats_def
      split: ptr.splits option.splits block.splits)

lemma ub_fields:
  "undefined_behaviour (get_n s q)" "undefined_behaviour (get_h s q)"
  "undefined_behaviour (set_n s q n)" "undefined_behaviour (set_h s q p)"
  "undefined_behaviour (memmove_floats s dst src m)"
  by (auto simp: get_n_def get_h_def set_n_def set_h_def memmove_floats_def
      intro!: ub_seq ub_load_struct ub_store_struct ub_read_floats ub_write_floats)

lemma copy_not_null:
  assumes "q \<noteq> NULL"
  shows "undefined_behaviour (dotprod_crcf_copy s q)"
  using assms
  by (auto simp: dotprod_crcf_copy_def Let_def split: prod.splits intro!: ub_seq ub_fields)











section \<open>Execution reads the object only\<close>

lemma read_floats_block:
  "block_at s b = Some (Floats buf) \<Longrightarrow>
   read_floats s (Ptr b d) m = (if d + m \<le> length buf then Inr (take m (drop d buf)) else Inl InvalidAccess)"
  by (simp add: read_floats_def)

lemma load_block:
  "block_at s b = Some (Floats buf) \<Longrightarrow>
   load s (Ptr b 0) i = (if i < length buf then Inr (buf ! i) else Inl InvalidAccess)"
  by (simp add: load_def)

lemma same_object_steps:
  assumes "object_at s q = Some (n, buf)" and "object_at s q' = Some (n, buf)"
  shows "vector_mac s q = vector_mac s q'" and "vector_mac4 s q = vector_mac4 s q'"
    and "cleanup s q = cleanup s q'" and "get_n s q = get_n s q'"
proof -
  from assms(1) obtain b where ls: "load_struct s q = Inr (n, Ptr b 0)"
    and b: "block_at s b = Some (Floats buf)"
    by (rule object_atD)
  from assms(2) obtain b' where ls': "load_struct s q' = Inr (n, Ptr b' 0)"
    and b': "block_at s b' = Some (Floats buf)"
    by (rule object_atD)
  note h = get_h_load_struct [OF ls] get_h_load_struct [OF ls']
  show "get_n s q = get_n s q'"
    by (simp add: get_n_load_struct [OF ls] get_n_load_struct [OF ls'])
  have l: "mm512_load_ps s (index_ptr (Ptr b 0) d) = mm512_load_ps s (index_ptr (Ptr b' 0) d)" for d
    by (simp add: mm512_load_ps_def index_ptr_def read_floats_block [OF b] read_floats_block [OF b'])
  have c: "get_coef s q i = get_coef s q' i" for i
    by (simp add: get_coef_def h load_block [OF b] load_block [OF b'])
  show "vector_mac s q = vector_mac s q'"
    by (intro ext) (simp add: vector_mac_def h l)
  show "vector_mac4 s q = vector_mac4 s q'"
    by (intro ext) (simp add: vector_mac4_def h l)
  show "cleanup s q = cleanup s q'"
    by (intro ext) (simp add: cleanup_def c)
qed

lemma same_object_execute:
  assumes "object_at s q = Some (n, buf)" and "object_at s q' = Some (n, buf)"
  shows "dotprod_crcf_execute_avx512f s q x y = dotprod_crcf_execute_avx512f s q' x y"
    and "dotprod_crcf_execute_avx512f4 s q x y = dotprod_crcf_execute_avx512f4 s q' x y"
    and "dotprod_crcf_execute s q x y = dotprod_crcf_execute s q' x y"
proof -
  note st = same_object_steps [OF assms]
  show 1: "dotprod_crcf_execute_avx512f s q x y = dotprod_crcf_execute_avx512f s q' x y"
    by (simp only: dotprod_crcf_execute_avx512f_def st)
  show 2: "dotprod_crcf_execute_avx512f4 s q x y = dotprod_crcf_execute_avx512f4 s q' x y"
    by (simp only: dotprod_crcf_execute_avx512f4_def st)
  show "dotprod_crcf_execute s q x y = dotprod_crcf_execute s q' x y"
    by (simp only: dotprod_crcf_execute_def st 1 2)
qed


lemma heap6_object: "dotprod_object heap6 (Ptr 3 0) 3 [1, 2, 3]"
  by (simp add: dotprod_object_def object_at_def load_struct_def block_at_def heap6_def heap2_def
      duplicate_def)

lemma heap6_room: "sizeof_dotprod_crcf_s + 2 * unat (3::u32) * sizeof_float \<le> avail heap6"
  by (simp add: heap6_def sizeof_dotprod_crcf_s_def sizeof_float_def)

text \<open>
  C8. \<^verbatim>\<open>dotprod_crcf_copy\<close> fails with the invalid-argument error exactly when the handle
  is null. For an object, with memory for the copy, it returns a new handle: the record
  and the buffer are blocks that did not exist before, the count and the \<open>2n\<close> floats of
  the buffer are those of the original, every block that existed is as it was, and
  executing the copy is executing the original, on every input.
\<close>

theorem copy_is_independent_duplicate:
  "(dotprod_crcf_copy s q = Inl (Failure LIQUID_EICONFIG) \<longleftrightarrow> q = NULL)
   \<and> (dotprod_object s q n c \<longrightarrow>
       sizeof_dotprod_crcf_s + 2 * unat n * sizeof_float \<le> avail s \<longrightarrow>
       (\<exists>s' q'. dotprod_crcf_copy s q = Inr (s', q')
          \<and> object_at s' q' = object_at s q \<and> object_at s' q = object_at s q
          \<and> dotprod_object s' q' n c
          \<and> block_of q' = Some (length (cells s))
          \<and> get_h s' q' = Inr (Ptr (Suc (length (cells s))) 0)
          \<and> block_at s (length (cells s)) = None \<and> block_at s (Suc (length (cells s))) = None
          \<and> block_of q' \<noteq> block_of q \<and> get_h s' q' \<noteq> get_h s' q
          \<and> (\<forall>a<length (cells s). block_at s' a = block_at s a)
          \<and> (\<forall>x y. dotprod_crcf_execute s' q' x y = dotprod_crcf_execute s' q x y)))"
proof (intro conjI impI)
  show "dotprod_crcf_copy s q = Inl (Failure LIQUID_EICONFIG) \<longleftrightarrow> q = NULL"
    using copy_not_null [of q s] copy_null [of s]
    by (auto simp: undefined_behaviour_iff)
next
  assume obj: "dotprod_object s q n c"
    and room: "sizeof_dotprod_crcf_s + 2 * unat n * sizeof_float \<le> avail s"
  let ?L = "length (cells s)"
  let ?s = "with_object s n (duplicate c)"
  let ?q = "Ptr ?L 0"
  from obj have o: "object_at s q = Some (n, duplicate c)" and len: "length c = unat n"
    and bn: "unat n < 2 ^ 31"
    by (simp_all add: dotprod_object_def)
  from o obtain a b where q: "q = Ptr a 0" and a: "block_at s a = Some (Struct n (Ptr b 0))"
    and b: "block_at s b = Some (Floats (duplicate c))"
    by (rule object_atE)
  have la: "a < ?L" and lb: "b < ?L" using a b by (auto dest: block_at_SomeD)
  have cp: "dotprod_crcf_copy s q = Inr (?s, ?q)"
    using obj room by (rule copy_result)
  have kept: "block_at ?s a' = block_at s a'" if "a' < ?L" for a'
    using that by (simp add: block_at_with_object)
  have o1: "object_at ?s ?q = Some (n, duplicate c)" by (rule object_at_with_object)
  have o2: "object_at ?s q = Some (n, duplicate c)" using o kept by (rule object_at_kept)
  have d: "dotprod_object ?s ?q n c" using len bn by (rule dotprod_object_with_object)
  have h1: "get_h ?s ?q = Inr (Ptr (Suc ?L) 0)"
    by (simp add: get_h_def load_struct_with_object)
  have h2: "get_h ?s q = Inr (Ptr b 0)"
    using a la by (simp add: get_h_def load_struct_def q kept)
  have fresh: "block_at s ?L = None" "block_at s (Suc ?L) = None"
    by (simp_all add: block_at_def)
  have ex: "dotprod_crcf_execute ?s ?q x y = dotprod_crcf_execute ?s q x y" for x y
    using o1 o2 by (rule same_object_execute(3))
  show "\<exists>s' q'. dotprod_crcf_copy s q = Inr (s', q')
          \<and> object_at s' q' = object_at s q \<and> object_at s' q = object_at s q
          \<and> dotprod_object s' q' n c
          \<and> block_of q' = Some (length (cells s))
          \<and> get_h s' q' = Inr (Ptr (Suc (length (cells s))) 0)
          \<and> block_at s (length (cells s)) = None \<and> block_at s (Suc (length (cells s))) = None
          \<and> block_of q' \<noteq> block_of q \<and> get_h s' q' \<noteq> get_h s' q
          \<and> (\<forall>a<length (cells s). block_at s' a = block_at s a)
          \<and> (\<forall>x y. dotprod_crcf_execute s' q' x y = dotprod_crcf_execute s' q x y)"
    using cp o o1 o2 d h1 h2 fresh kept ex la lb
    by (intro exI [of _ ?s] exI [of _ ?q]) (simp add: block_of_def q)
qed

theorem copy_is_independent_duplicate_witness:
  "dotprod_object heap6 (Ptr 3 0) 3 [1, 2, 3]
   \<and> sizeof_dotprod_crcf_s + 2 * unat (3::u32) * sizeof_float \<le> avail heap6
   \<and> dotprod_crcf_copy heap6 NULL = Inl (Failure LIQUID_EICONFIG)
   \<and> dotprod_crcf_copy heap6 (Ptr 3 0) \<noteq> Inl (Failure LIQUID_EICONFIG)
   \<and> (\<exists>s' q'. dotprod_crcf_copy heap6 (Ptr 3 0) = Inr (s', q')
          \<and> object_at s' q' = object_at heap6 (Ptr 3 0)
          \<and> block_of q' = Some 5 \<and> get_h s' q' = Inr (Ptr 6 0)
          \<and> (\<forall>x y. dotprod_crcf_execute s' q' x y = dotprod_crcf_execute s' (Ptr 3 0) x y))"
proof -
  note a = copy_is_independent_duplicate [of heap6 NULL 3 "[1, 2, 3]"]
  note b = copy_is_independent_duplicate [of heap6 "Ptr 3 0" 3 "[1, 2, 3]"]
  have l: "length (cells heap6) = 5" by (simp add: heap6_def heap2_def)
  from a have 1: "dotprod_crcf_copy heap6 NULL = Inl (Failure LIQUID_EICONFIG)" by simp
  from b have 2: "dotprod_crcf_copy heap6 (Ptr 3 0) \<noteq> Inl (Failure LIQUID_EICONFIG)" by simp
  from b heap6_object heap6_room
  have "\<exists>s' q'. dotprod_crcf_copy heap6 (Ptr 3 0) = Inr (s', q')
          \<and> object_at s' q' = object_at heap6 (Ptr 3 0)
          \<and> block_of q' = Some 5 \<and> get_h s' q' = Inr (Ptr (Suc 5) 0)
          \<and> (\<forall>x y. dotprod_crcf_execute s' q' x y = dotprod_crcf_execute s' (Ptr 3 0) x y)"
    unfolding l by blast
  then have "\<exists>s' q'. dotprod_crcf_copy heap6 (Ptr 3 0) = Inr (s', q')
          \<and> object_at s' q' = object_at heap6 (Ptr 3 0)
          \<and> block_of q' = Some 5 \<and> get_h s' q' = Inr (Ptr 6 0)
          \<and> (\<forall>x y. dotprod_crcf_execute s' q' x y = dotprod_crcf_execute s' (Ptr 3 0) x y)"
    by simp
  with 1 2 heap6_object heap6_room show ?thesis by blast
qed

section \<open>The object stays as it was created\<close>


















end
